theory Spec2Isabelle
  imports Main
begin

section \<open>Data model of the point-of-sale page (src/src/pages/Sales.tsx)\<close>

text \<open>
  The interfaces of Sales.tsx become records. JavaScript numbers (quantities and
  amounts) are integers here: no property below depends on their arithmetic.
  \<open>Date.now()\<close> is a count of milliseconds, a natural number handed in by the caller.
\<close>

record CartItem =
  item_id :: string
  item_name :: string
  category :: string
  quantity :: int
  unit_price :: int
  is_available :: bool
  cart_quantity :: int

record BillItem =
  bi_id :: string
  bi_item_name :: string
  bi_cart_quantity :: int
  bi_unit_price :: int
  bi_total_price :: int

record Customer =
  name :: string
  phone :: string
  email :: string
  address :: string

record CompanyInfo =
  ci_name :: string
  ci_address :: string
  ci_phone :: string
  ci_email :: string
  ci_upi_id :: string

datatype PaymentMethod = cash | online

record BillData =
  billId :: string
  items :: "BillItem list"
  customer :: Customer
  subtotal :: int
  finalAmount :: int
  bill_notes :: string
  timestamp :: nat
  companyInfo :: CompanyInfo
  paymentMethod :: PaymentMethod
  userId :: string

text \<open>A row of the remote table \<open>sales\<close>, as \<open>processSaleMutation\<close> inserts it.\<close>

record SaleRow =
  user_id :: string
  customer_name :: string
  customer_phone :: string
  total_amount :: int
  row_items :: "BillItem list"
  bill_data :: BillData

record Dialogs =
  payment :: bool
  success :: bool
  history :: bool

text \<open>
  The toasts the page raises; the counts that the source formats into the description
  are kept as numbers, the message of a failed transaction as its string.
\<close>

datatype Toast =
    SyncingToast nat
  | SyncCompleteToast nat
  | BackOnlineToast
  | YouAreOfflineToast
  | SaleSavedOfflineToast
  | TransactionFailedToast string
  | EmptyCartToast
  | CustomerInfoMissingToast

text \<open>Lines written by \<open>console.error\<close> (a sale that failed to sync: bill id and error)
  and by \<open>console.warn\<close> (a stock decrement that failed: item name and error).\<close>

datatype ConsoleLine =
    FailedToSync string string
  | CouldNotDecrement string string

text \<open>
  The suspended continuation of one call of \<open>syncOfflineSales\<close>, one constructor per
  \<open>await\<close> of the function: the first buffer read, the remote commit of the current
  record, its removal from the buffer, and the final buffer read. Inside the loop the
  continuation holds the record of the current iteration, the records the iterator has
  still to yield, and \<open>successCount\<close>.
\<close>

datatype SyncTask =
    AwaitSnapshot
  | AwaitCommit BillData "BillData list" nat
  | AwaitDelete BillData "BillData list" nat
  | AwaitRequery

text \<open>
  The state of the page and of its two collaborators. The first group is the React
  state of the component \<open>Sales\<close> and the user of the authentication context.
  \<open>seenSyncing\<close> and \<open>seenUser\<close> are the values of \<open>isSyncing\<close> and \<open>user\<close> that
  the installed callback \<open>syncOfflineSales\<close> holds: the callback is created during a
  render and closes over the constants of that render, which a later \<open>setIsSyncing\<close>
  does not change. \<open>store\<close> and \<open>storageAvailable\<close> are the offline
  buffer; \<open>sales\<close> is the remote table; the call logs record what the page asked of
  its collaborators (buffer reads, buffer removals, remote inserts and
  \<open>decrement_stock\<close> calls, each with its outcome); \<open>tasks\<close> are the calls of
  \<open>syncOfflineSales\<close> that are suspended at an \<open>await\<close>, \<open>checkouts\<close> those of
  \<open>completeSale\<close>.
\<close>

text \<open>
  The suspended continuation of one call of \<open>completeSale\<close>, at its one \<open>await\<close>: of
  \<open>saveSaleOffline\<close> in the offline branch, of \<open>mutateAsync\<close> in the online branch. The
  continuation holds \<open>billData\<close>; the \<open>catch\<close> block of the online branch also reads
  \<open>dialogs\<close>, the constant of the render that created the handler.
\<close>

datatype CheckoutTask =
    AwaitSave BillData
  | AwaitMutation BillData Dialogs

record Sys =
  cart :: "CartItem list"
  customerInfo :: Customer
  saleNotes :: string
  activeTab :: string
  dialogs :: Dialogs
  completedBill :: "BillData option"
  paymentBillId :: string
  isOffline :: bool
  isSyncing :: bool
  pendingSaleCount :: nat
  user :: "string option"
  seenSyncing :: bool
  seenUser :: "string option"
  toasts :: "Toast list"
  console :: "ConsoleLine list"
  store :: "BillData list"
  storageAvailable :: bool
  readCalls :: nat
  deleteCalls :: "string list"
  sales :: "SaleRow list"
  commitCalls :: "(string \<times> bool) list"
  stockCalls :: "(string \<times> int \<times> bool) list"
  tasks :: "SyncTask list"
  checkouts :: "CheckoutTask list"

text \<open>
  The remote side answers each call with an error message or with none. The answer to
  the k-th insert into \<open>sales\<close> and to the k-th \<open>decrement_stock\<close> call (counted over
  the whole run) is given by the environment, so every schedule of failures is covered.
\<close>

record Env =
  insertError :: "nat \<Rightarrow> string option"
  stockError :: "nat \<Rightarrow> string option"

section \<open>The offline sale buffer\<close>

text \<open>
  Modelled from the spec: \<open>@/utils/offlineUtils\<close> (\<open>saveSaleOffline\<close>,
  \<open>getOfflineSales\<close>, \<open>deleteSyncedSale\<close>) is imported by Sales.tsx but is not among
  the sources. Section 4.1 of the specification gives the contract: a durable collection
  keyed by \<open>billId\<close>; \<open>save\<close> inserts with overwrite semantics and fails loudly when the
  storage is unavailable; \<open>listPending\<close> returns the buffered records in insertion order
  and does not change the state; \<open>remove\<close> deletes exactly the record with that
  identifier and is a no-op when it is absent; \<open>listPending\<close> and \<open>remove\<close> degrade to
  empty and no-op when the storage is unavailable. The collection is the list of its
  records in insertion order, the key of a record being its \<open>billId\<close>.
\<close>

fun upsert :: "BillData \<Rightarrow> BillData list \<Rightarrow> BillData list" where
  "upsert b [] = [b]"
| "upsert b (b' # bs) = (if billId b' = billId b then b # bs else b' # upsert b bs)"

text \<open>Modelled from the spec: \<open>save(transaction)\<close> of section 4.1; \<open>None\<close> is the thrown
  storage failure.\<close>

definition saveSaleOffline :: "BillData \<Rightarrow> Sys \<Rightarrow> Sys option" where
  "saveSaleOffline b s =
     (if storageAvailable s then Some (s\<lparr>store := upsert b (store s)\<rparr>) else None)"

text \<open>Modelled from the spec: \<open>listPending()\<close> of section 4.1. The number of reads is
  counted by the callers.\<close>

definition getOfflineSales :: "Sys \<Rightarrow> BillData list" where
  "getOfflineSales s = (if storageAvailable s then store s else [])"

text \<open>Modelled from the spec: \<open>remove(billId)\<close> of section 4.1. The call is logged.\<close>

definition deleteSyncedSale :: "string \<Rightarrow> Sys \<Rightarrow> Sys" where
  "deleteSyncedSale k s =
     (if storageAvailable s
      then s\<lparr>store := filter (\<lambda>b. billId b \<noteq> k) (store s), deleteCalls := deleteCalls s @ [k]\<rparr>
      else s\<lparr>deleteCalls := deleteCalls s @ [k]\<rparr>)"

section \<open>Remote commit: \<open>processSaleMutation\<close>\<close>

text \<open>
  \<open>for (const item of billData.items)\<close>: one \<open>decrement_stock\<close> call per line, in order;
  an error is written with \<open>console.warn\<close> and the loop goes on.
\<close>

fun decrementStock :: "Env \<Rightarrow> BillItem list \<Rightarrow> Sys \<Rightarrow> Sys" where
  "decrementStock env [] s = s"
| "decrementStock env (it # its) s =
     (case stockError env (length (stockCalls s)) of
        None \<Rightarrow>
          decrementStock env its
            (s\<lparr>stockCalls := stockCalls s @ [(bi_id it, bi_cart_quantity it, True)]\<rparr>)
      | Some msg \<Rightarrow>
          decrementStock env its
            (s\<lparr>stockCalls := stockCalls s @ [(bi_id it, bi_cart_quantity it, False)],
               console := console s @ [CouldNotDecrement (bi_item_name it) msg]\<rparr>))"

definition saleRow :: "BillData \<Rightarrow> SaleRow" where
  "saleRow b =
     \<lparr>user_id = userId b, customer_name = name (customer b),
      customer_phone = phone (customer b), total_amount = finalAmount b,
      row_items = items b, bill_data = b\<rparr>"

text \<open>
  \<open>mutationFn\<close>: the insert into \<open>sales\<close>; when it reports an error the function throws
  \<open>Transaction failed: <message>\<close> (the \<open>Inl\<close> result) before any stock call; otherwise
  the stock loop runs and the function returns. \<open>mutateAsync\<close> rejects exactly when
  \<open>mutationFn\<close> throws; its \<open>onSuccess\<close> only invalidates cached queries.
\<close>

definition processSaleMutation :: "Env \<Rightarrow> BillData \<Rightarrow> Sys \<Rightarrow> (string + unit) \<times> Sys" where
  "processSaleMutation env b s =
     (case insertError env (length (commitCalls s)) of
        Some msg \<Rightarrow>
          (Inl (''Transaction failed: '' @ msg),
           s\<lparr>commitCalls := commitCalls s @ [(billId b, False)]\<rparr>)
      | None \<Rightarrow>
          (Inr (),
           decrementStock env (items b)
             (s\<lparr>sales := sales s @ [saleRow b],
                commitCalls := commitCalls s @ [(billId b, True)]\<rparr>)))"

section \<open>The sync controller: \<open>syncOfflineSales\<close>\<close>

text \<open>The \<open>catch\<close> block of the loop: \<open>console.error\<close> with the bill id and the error.\<close>

definition logSyncFailure :: "BillData \<Rightarrow> string \<Rightarrow> Sys \<Rightarrow> Sys" where
  "logSyncFailure b err s = s\<lparr>console := console s @ [FailedToSync (billId b) err]\<rparr>"

text \<open>
  The \<open>for\<close> loop over \<open>pendingSales\<close>, run without interruption: commit, then remove and
  count on success, log on failure, and in both cases go on with the next record.
  The result is the state and \<open>successCount\<close>.
\<close>

fun syncLoop :: "Env \<Rightarrow> BillData list \<Rightarrow> nat \<Rightarrow> Sys \<Rightarrow> Sys \<times> nat" where
  "syncLoop env [] successCount s = (s, successCount)"
| "syncLoop env (b # rest) successCount s =
     (case processSaleMutation env b s of
        (Inr _, s1) \<Rightarrow> syncLoop env rest (Suc successCount) (deleteSyncedSale (billId b) s1)
      | (Inl err, s1) \<Rightarrow> syncLoop env rest successCount (logSyncFailure b err s1))"

definition addToast :: "Toast \<Rightarrow> Sys \<Rightarrow> Sys" where
  "addToast t s = s\<lparr>toasts := toasts s @ [t]\<rparr>"

text \<open>What follows the loop up to the last \<open>await\<close>: the \<open>Sync Complete\<close> toast.\<close>

definition announce :: "nat \<Rightarrow> Sys \<Rightarrow> Sys" where
  "announce successCount s =
     (if successCount > 0 then addToast (SyncCompleteToast successCount) s else s)"

text \<open>The last lines: read the buffer again, set the pending count, clear the flag.\<close>

definition requery :: "Sys \<Rightarrow> Sys" where
  "requery s =
     s\<lparr>readCalls := Suc (readCalls s),
       pendingSaleCount := length (getOfflineSales s),
       isSyncing := False\<rparr>"

text \<open>One whole call of \<open>syncOfflineSales\<close>, run to its end with nothing in between.\<close>

definition syncOfflineSales :: "Env \<Rightarrow> Sys \<Rightarrow> Sys" where
  "syncOfflineSales env s =
     (if seenSyncing s \<or> seenUser s = None then s
      else
        let pendingSales = getOfflineSales s;
            s1 = s\<lparr>isSyncing := True, readCalls := Suc (readCalls s),
                   pendingSaleCount := length pendingSales\<rparr>
        in if pendingSales = [] then s1\<lparr>isSyncing := False\<rparr>
           else
             let (s2, successCount) =
                   syncLoop env pendingSales 0 (addToast (SyncingToast (length pendingSales)) s1)
             in requery (announce successCount s2))"

section \<open>The sync controller, one \<open>await\<close> at a time\<close>

text \<open>
  JavaScript runs \<open>syncOfflineSales\<close> up to its next \<open>await\<close> and then lets other events
  in. \<open>startSync\<close> is the part before the first \<open>await\<close>: the guard on the in-flight flag
  and the user, \<open>setIsSyncing(true)\<close>, and the call of \<open>getOfflineSales\<close>, whose result
  the new task waits for. The guard reads \<open>isSyncing\<close> and \<open>user\<close> as the callback
  holds them, that is as they were at the render that created it; \<open>setIsSyncing(true)\<close>
  changes the state, which reaches a callback only through the next render
  (\<open>isSyncing\<close> is in the dependency list of \<open>useCallback\<close>).
\<close>

definition startSync :: "Sys \<Rightarrow> Sys" where
  "startSync s =
     (if seenSyncing s \<or> seenUser s = None then s
      else s\<lparr>isSyncing := True, tasks := tasks s @ [AwaitSnapshot]\<rparr>)"

text \<open>The head of the \<open>for\<close> loop: the next record is committed, or the loop is over and
  the function goes on to the toast and the last buffer read.\<close>

fun nextIteration :: "BillData list \<Rightarrow> nat \<Rightarrow> Sys \<Rightarrow> Sys \<times> SyncTask" where
  "nextIteration [] successCount s = (announce successCount s, AwaitRequery)"
| "nextIteration (b # rest) successCount s = (s, AwaitCommit b rest successCount)"

text \<open>The awaited operation completes and the function runs to its next \<open>await\<close>
  (\<open>Some\<close> task) or to its end (\<open>None\<close>).\<close>

fun resumeTask :: "Env \<Rightarrow> SyncTask \<Rightarrow> Sys \<Rightarrow> Sys \<times> SyncTask option" where
  "resumeTask env AwaitSnapshot s =
     (let pendingSales = getOfflineSales s;
          s1 = s\<lparr>readCalls := Suc (readCalls s), pendingSaleCount := length pendingSales\<rparr>
      in if pendingSales = [] then (s1\<lparr>isSyncing := False\<rparr>, None)
         else
           let (s2, t) = nextIteration pendingSales 0
                           (addToast (SyncingToast (length pendingSales)) s1)
           in (s2, Some t))"
| "resumeTask env (AwaitCommit b rest successCount) s =
     (case processSaleMutation env b s of
        (Inr _, s1) \<Rightarrow> (s1, Some (AwaitDelete b rest successCount))
      | (Inl err, s1) \<Rightarrow>
          (let (s2, t) = nextIteration rest successCount (logSyncFailure b err s1)
           in (s2, Some t)))"
| "resumeTask env (AwaitDelete b rest successCount) s =
     (let (s2, t) = nextIteration rest (Suc successCount) (deleteSyncedSale (billId b) s)
      in (s2, Some t))"
| "resumeTask env AwaitRequery s = (requery s, None)"

definition resume :: "Env \<Rightarrow> nat \<Rightarrow> Sys \<Rightarrow> Sys" where
  "resume env i s =
     (if i < length (tasks s) then
        (case resumeTask env (tasks s ! i) s of
           (s', Some t) \<Rightarrow> s'\<lparr>tasks := (tasks s')[i := t]\<rparr>
         | (s', None) \<Rightarrow> s'\<lparr>tasks := take i (tasks s') @ drop (Suc i) (tasks s')\<rparr>)
      else s)"

text \<open>A render of the component followed by its effect: \<open>useCallback\<close> builds the
  callback anew from the current \<open>isSyncing\<close> and \<open>user\<close>, and the effect installs
  it in the listeners. The call of \<open>syncOfflineSales\<close> that the effect makes is the
  event \<open>Trigger\<close> below; its refresh of the pending count is left out.\<close>

definition render :: "Sys \<Rightarrow> Sys" where
  "render s = s\<lparr>seenSyncing := isSyncing s, seenUser := user s\<rparr>"

text \<open>\<open>updateOnlineStatus\<close>, the listener of the browser's \<open>online\<close> and \<open>offline\<close>
  events; its argument is \<open>navigator.onLine\<close>.\<close>

definition updateOnlineStatus :: "bool \<Rightarrow> Sys \<Rightarrow> Sys" where
  "updateOnlineStatus onLine s =
     (if onLine then startSync (addToast BackOnlineToast (s\<lparr>isOffline := False\<rparr>))
      else addToast YouAreOfflineToast (s\<lparr>isOffline := True\<rparr>))"

section \<open>Checkout: \<open>proceedToPayment\<close> and \<open>completeSale\<close>\<close>

text \<open>The template literal \<open>INV-${Date.now()}\<close>: the decimal digits of the clock.\<close>

definition digitChar :: "nat \<Rightarrow> char" where
  "digitChar d = ''0123456789'' ! d"

fun showNat :: "nat \<Rightarrow> string" where
  "showNat n = (if n < 10 then [digitChar n] else showNat (n div 10) @ [digitChar (n mod 10)])"

declare showNat.simps [simp del]

definition proceedToPayment :: "nat \<Rightarrow> Sys \<Rightarrow> Sys" where
  "proceedToPayment now s =
     (if cart s = [] then addToast EmptyCartToast s
      else if phone (customerInfo s) = [] then
        (addToast CustomerInfoMissingToast s)\<lparr>activeTab := ''customer''\<rparr>
      else s\<lparr>paymentBillId := ''INV-'' @ showNat now,
             dialogs := (dialogs s)\<lparr>payment := True\<rparr>\<rparr>)"

definition defaultCompanyInfo :: CompanyInfo where
  "defaultCompanyInfo =
     \<lparr>ci_name = ''Sri Lakshmi Supermarket'',
      ci_address = ''#45, Main Road, V.V. Nagar, Mandya, Karnataka - 571401'',
      ci_phone = ''+91 98765 43210'',
      ci_email = ''contact@srilakshmisupermarket.com'',
      ci_upi_id = ''srilakshmi-supermarket@okaxis''\<rparr>"

definition cartTotals :: "CartItem list \<Rightarrow> int" where
  "cartTotals c = sum_list (map (\<lambda>i. cart_quantity i * unit_price i) c)"

definition billItem :: "CartItem \<Rightarrow> BillItem" where
  "billItem i =
     \<lparr>bi_id = item_id i, bi_item_name = item_name i, bi_cart_quantity = cart_quantity i,
      bi_unit_price = unit_price i, bi_total_price = cart_quantity i * unit_price i\<rparr>"

text \<open>The object \<open>billData\<close> that \<open>completeSale\<close> builds from the state it sees.\<close>

definition makeBill :: "PaymentMethod \<Rightarrow> nat \<Rightarrow> string \<Rightarrow> Sys \<Rightarrow> BillData" where
  "makeBill pm now uid s =
     \<lparr>billId = paymentBillId s,
      items = map billItem (cart s),
      customer = (customerInfo s)
        \<lparr>name := (if name (customerInfo s) = [] then ''Walk-in Customer''
                   else name (customerInfo s))\<rparr>,
      subtotal = cartTotals (cart s),
      finalAmount = cartTotals (cart s),
      bill_notes = saleNotes s,
      timestamp = now,
      companyInfo = defaultCompanyInfo,
      paymentMethod = pm,
      userId = uid\<rparr>"

text \<open>The two state updates before the branch: the bill is recorded as completed and
  the success dialog replaces the payment dialog.\<close>

definition showSuccess :: "BillData \<Rightarrow> Sys \<Rightarrow> Sys" where
  "showSuccess b s =
     s\<lparr>completedBill := Some b,
       dialogs := \<lparr>payment = False, success = True, history = False\<rparr>\<rparr>"

text \<open>How the promise of \<open>completeSale\<close> settles: it resolves, or it rejects with what
  was thrown and not caught (\<open>user!.id\<close> on a missing user, or the storage failure of
  \<open>saveSaleOffline\<close>).\<close>

datatype Thrown = TypeError | StorageFailure

datatype Settled = Resolved | Rejected Thrown

text \<open>
  \<open>completeSale\<close> up to its \<open>await\<close>. \<open>user!.id\<close> throws on a missing user before any
  state is set (the result \<open>None\<close>: the promise rejects with the type error). Otherwise
  the bill is built, it is recorded as completed, the success dialog is opened, and the
  function calls \<open>saveSaleOffline\<close> when the page is offline and \<open>mutateAsync\<close> when it
  is online, and waits for the answer. \<open>isOffline\<close> and \<open>dialogs\<close> are the constants of
  the handler, taken to be the state at the call.
\<close>

definition startCheckout :: "PaymentMethod \<Rightarrow> nat \<Rightarrow> Sys \<Rightarrow> Sys \<times> CheckoutTask option" where
  "startCheckout pm now s =
     (case user s of
        None \<Rightarrow> (s, None)
      | Some uid \<Rightarrow>
          let billData = makeBill pm now uid s;
              s1 = showSuccess billData s
          in if isOffline s then (s1, Some (AwaitSave billData))
             else (s1, Some (AwaitMutation billData (dialogs s))))"

text \<open>
  \<open>completeSale\<close> from its \<open>await\<close> on, when the awaited operation is answered. The
  offline branch has no \<open>try\<close>: a failure of \<open>saveSaleOffline\<close> leaves the function;
  otherwise the pending count is incremented (a functional update, on the state of that
  moment) and a toast is raised. The online branch does nothing more when the commit
  succeeds; when it fails, the \<open>catch\<close> block raises the toast and sets the dialogs to
  \<open>{...dialogs, success: false}\<close>, built from the handler's constant.
\<close>

fun settleCheckout :: "Env \<Rightarrow> CheckoutTask \<Rightarrow> Sys \<Rightarrow> Sys \<times> Settled" where
  "settleCheckout env (AwaitSave billData) s =
     (case saveSaleOffline billData s of
        None \<Rightarrow> (s, Rejected StorageFailure)
      | Some s2 \<Rightarrow>
          (addToast SaleSavedOfflineToast (s2\<lparr>pendingSaleCount := Suc (pendingSaleCount s2)\<rparr>),
           Resolved))"
| "settleCheckout env (AwaitMutation billData seenDialogs) s =
     (case processSaleMutation env billData s of
        (Inr _, s2) \<Rightarrow> (s2, Resolved)
      | (Inl err, s2) \<Rightarrow>
          ((addToast (TransactionFailedToast err) s2)
             \<lparr>dialogs := seenDialogs\<lparr>success := False\<rparr>\<rparr>,
           Resolved))"

text \<open>One whole call of \<open>completeSale\<close>, run to its end with nothing in between: the
  part before the \<open>await\<close>, then the part after it.\<close>

definition completeSale :: "Env \<Rightarrow> PaymentMethod \<Rightarrow> nat \<Rightarrow> Sys \<Rightarrow> Sys \<times> Settled" where
  "completeSale env pm now s =
     (case startCheckout pm now s of
        (s1, None) \<Rightarrow> (s1, Rejected TypeError)
      | (s1, Some t) \<Rightarrow> settleCheckout env t s1)"

text \<open>
  \<open>completeSale\<close>, one \<open>await\<close> at a time. \<open>checkout\<close> is the click on a button of the
  payment dialog: the call runs to its \<open>await\<close> and is suspended there. \<open>settle\<close> is
  the answer to the awaited operation of the suspended call number \<open>i\<close>, which then
  runs to its end.
\<close>

definition checkout :: "PaymentMethod \<Rightarrow> nat \<Rightarrow> Sys \<Rightarrow> Sys" where
  "checkout pm now s =
     (case startCheckout pm now s of
        (s1, None) \<Rightarrow> s1
      | (s1, Some t) \<Rightarrow> s1\<lparr>checkouts := checkouts s1 @ [t]\<rparr>)"

definition settle :: "Env \<Rightarrow> nat \<Rightarrow> Sys \<Rightarrow> Sys" where
  "settle env i s =
     (if i < length (checkouts s) then
        (let s' = fst (settleCheckout env (checkouts s ! i) s)
         in s'\<lparr>checkouts := take i (checkouts s') @ drop (Suc i) (checkouts s')\<rparr>)
      else s)"

text \<open>\<open>resetSale\<close>; the search term it also clears is not part of the state here.\<close>

definition resetSale :: "Sys \<Rightarrow> Sys" where
  "resetSale s =
     s\<lparr>cart := [], customerInfo := \<lparr>name = [], phone = [], email = [], address = []\<rparr>,
       saleNotes := [], completedBill := None, activeTab := ''cart''\<rparr>"

text \<open>
  The button \<open>Start New Sale\<close> of the dialog \<open>Transaction Successful!\<close>:
  \<open>setDialogs({...dialogs, success: false}); resetSale()\<close>. The button is on the page only
  while that dialog is open (\<open>open={dialogs.success}\<close>).
\<close>

definition startNewSale :: "Sys \<Rightarrow> Sys" where
  "startNewSale s =
     (if success (dialogs s) then resetSale (s\<lparr>dialogs := (dialogs s)\<lparr>success := False\<rparr>\<rparr>)
      else s)"

text \<open>The listener of the authentication context (src/src/contexts/AuthContext.tsx):
  \<open>setUser(session?.user ?? null)\<close>. The page sees the new user at its next render.\<close>

definition onAuthStateChange :: "string option \<Rightarrow> Sys \<Rightarrow> Sys" where
  "onAuthStateChange u s = s\<lparr>user := u\<rparr>"

section \<open>Events of the page\<close>

text \<open>
  What can happen between two \<open>await\<close>s of a sync pass: a trigger of \<open>syncOfflineSales\<close>
  (the effect of the component calls it directly), the completion of the operation a
  task waits for, a render, the browser's connectivity events, a change of the
  authenticated user, and the handlers of the checkout: \<open>proceedToPayment\<close>, the call of
  \<open>completeSale\<close> up to its \<open>await\<close>, the answer that a suspended \<open>completeSale\<close> waits
  for, and the button that starts a new sale. The user starts the handlers from the
  rendered page, and the values they close over are taken to be the state at the call.
\<close>

datatype Event =
    Trigger
  | Resume nat
  | Render
  | OnlineEvent
  | OfflineEvent
  | Proceed nat
  | Checkout PaymentMethod nat
  | Settle nat
  | StartNewSale
  | AuthStateChange "string option"

fun step :: "Env \<Rightarrow> Event \<Rightarrow> Sys \<Rightarrow> Sys" where
  "step env Trigger s = startSync s"
| "step env (Resume i) s = resume env i s"
| "step env Render s = render s"
| "step env OnlineEvent s = updateOnlineStatus True s"
| "step env OfflineEvent s = updateOnlineStatus False s"
| "step env (Proceed now) s = proceedToPayment now s"
| "step env (Checkout pm now) s = checkout pm now s"
| "step env (Settle i) s = settle env i s"
| "step env StartNewSale s = startNewSale s"
| "step env (AuthStateChange u) s = onAuthStateChange u s"

fun run :: "Env \<Rightarrow> Event list \<Rightarrow> Sys \<Rightarrow> Sys" where
  "run env [] s = s"
| "run env (e # es) s = run env es (step env e s)"

text \<open>\<open>k\<close> calls of \<open>syncOfflineSales\<close>, each run to its end before the next starts.\<close>

fun syncPasses :: "Env \<Rightarrow> nat \<Rightarrow> Sys \<Rightarrow> Sys" where
  "syncPasses env 0 s = s"
| "syncPasses env (Suc k) s = syncOfflineSales env (syncPasses env k s)"

section \<open>Notions used in the statements\<close>

text \<open>
  The commit calls that a loop over \<open>bs\<close> makes when the remote has already answered
  \<open>n\<close> inserts: the record at position \<open>j\<close> of the loop gets answer \<open>n + j\<close>.
  \<open>attemptsOf\<close> is the log of these calls, \<open>committedOf\<close> the records whose insert
  succeeds, \<open>failedOf\<close> the others.
\<close>

definition attemptsOf :: "Env \<Rightarrow> nat \<Rightarrow> BillData list \<Rightarrow> (string \<times> bool) list" where
  "attemptsOf env n bs = map (\<lambda>(j, b). (billId b, insertError env j = None)) (enumerate n bs)"

definition committedOf :: "Env \<Rightarrow> nat \<Rightarrow> BillData list \<Rightarrow> BillData list" where
  "committedOf env n bs = map snd (filter (\<lambda>(j, b). insertError env j = None) (enumerate n bs))"

definition failedOf :: "Env \<Rightarrow> nat \<Rightarrow> BillData list \<Rightarrow> BillData list" where
  "failedOf env n bs = map snd (filter (\<lambda>(j, b). insertError env j \<noteq> None) (enumerate n bs))"

text \<open>The \<open>decrement_stock\<close> calls of one commit, numbered from \<open>n\<close>, and the warnings
  written for those that fail.\<close>

definition stockLog :: "Env \<Rightarrow> nat \<Rightarrow> BillItem list \<Rightarrow> (string \<times> int \<times> bool) list" where
  "stockLog env n its =
     map (\<lambda>(j, it). (bi_id it, bi_cart_quantity it, stockError env j = None)) (enumerate n its)"

definition stockWarnings :: "Env \<Rightarrow> nat \<Rightarrow> BillItem list \<Rightarrow> ConsoleLine list" where
  "stockWarnings env n its =
     concat (map (\<lambda>(j, it). case stockError env j of None \<Rightarrow> []
                   | Some msg \<Rightarrow> [CouldNotDecrement (bi_item_name it) msg]) (enumerate n its))"

text \<open>The second state differs from the first at most in the buffer, the remote table,
  the call logs and the console.\<close>

definition untouched :: "Sys \<Rightarrow> Sys \<Rightarrow> bool" where
  "untouched s s' \<longleftrightarrow>
     s' = s\<lparr>store := store s', deleteCalls := deleteCalls s', sales := sales s',
            commitCalls := commitCalls s', stockCalls := stockCalls s', console := console s'\<rparr>"

text \<open>The counts announced by the \<open>Sync Complete\<close> toasts.\<close>

fun syncCompleteCounts :: "Toast list \<Rightarrow> nat list" where
  "syncCompleteCounts [] = []"
| "syncCompleteCounts (SyncCompleteToast n # ts) = n # syncCompleteCounts ts"
| "syncCompleteCounts (_ # ts) = syncCompleteCounts ts"

subsection \<open>Concrete inputs\<close>

text \<open>The component as it is mounted (the initial values of its \<open>useState\<close> calls), for a
  given connectivity, user and buffer content; a bill of one line; and a remote side
  that fails the listed insert calls and the listed stock calls.\<close>

definition initialState :: "bool \<Rightarrow> string option \<Rightarrow> BillData list \<Rightarrow> Sys" where
  "initialState onLine u buffered =
     \<lparr>cart = [], customerInfo = \<lparr>name = [], phone = [], email = [], address = []\<rparr>,
      saleNotes = [], activeTab = ''cart'',
      dialogs = \<lparr>payment = False, success = False, history = False\<rparr>,
      completedBill = None, paymentBillId = [], isOffline = (\<not> onLine), isSyncing = False,
      pendingSaleCount = 0, user = u, seenSyncing = False, seenUser = u, toasts = [],
      console = [], store = buffered,
      storageAvailable = True, readCalls = 0, deleteCalls = [], sales = [],
      commitCalls = [], stockCalls = [], tasks = [], checkouts = []\<rparr>"

definition exampleBill :: "string \<Rightarrow> BillData" where
  "exampleBill k =
     \<lparr>billId = k,
      items = [\<lparr>bi_id = ''rice'', bi_item_name = ''Rice 1kg'', bi_cart_quantity = 2,
                bi_unit_price = 60, bi_total_price = 120\<rparr>],
      customer = \<lparr>name = ''Walk-in Customer'', phone = ''9876543210'', email = [],
                  address = []\<rparr>,
      subtotal = 120, finalAmount = 120, bill_notes = [], timestamp = 1000,
      companyInfo = defaultCompanyInfo, paymentMethod = cash, userId = ''u1''\<rparr>"

definition remoteFailing :: "nat list \<Rightarrow> nat list \<Rightarrow> Env" where
  "remoteFailing inserts stocks =
     \<lparr>insertError = (\<lambda>k. if k \<in> set inserts then Some ''timeout'' else None),
      stockError = (\<lambda>k. if k \<in> set stocks then Some ''no such item'' else None)\<rparr>"

text \<open>
  What \<open>k\<close> passes have done since the state \<open>s0\<close>: \<open>cs\<close> are the commit calls made,
  \<open>ds\<close> the records committed and \<open>ts\<close> the toasts raised. Used as the invariant of a
  sequence of passes.
\<close>

definition deliveryInv ::
  "nat \<Rightarrow> Sys \<Rightarrow> Sys \<Rightarrow> (string \<times> bool) list \<Rightarrow> BillData list \<Rightarrow> Toast list \<Rightarrow> bool" where
  "deliveryInv k s0 s cs ds ts \<longleftrightarrow>
     \<not> seenSyncing s \<and> seenUser s \<noteq> None \<and> storageAvailable s \<and>
     commitCalls s = commitCalls s0 @ cs \<and>
     deleteCalls s = deleteCalls s0 @ map billId ds \<and>
     sales s = sales s0 @ map saleRow ds \<and>
     toasts s = toasts s0 @ ts \<and>
     map fst (filter snd cs) = map billId ds \<and>
     distinct (map billId ds) \<and> set ds \<subseteq> set (store s0) \<and>
     sum_list (syncCompleteCounts ts) = length ds \<and>
     store s = filter (\<lambda>b. billId b \<notin> billId ` set ds) (store s0) \<and>
     (\<forall>b\<in>set (store s0).
        if billId b \<in> billId ` set ds
        then \<exists>m<k. filter (\<lambda>c. fst c = billId b) cs =
                replicate m (billId b, False) @ [(billId b, True)]
        else filter (\<lambda>c. fst c = billId b) cs = replicate k (billId b, False))"

subsection \<open>Notions about a pass that other events interleave with\<close>

text \<open>The records a suspended pass has still to attempt.\<close>

fun pendingOf :: "SyncTask \<Rightarrow> BillData list" where
  "pendingOf AwaitSnapshot = []"
| "pendingOf (AwaitCommit b rest c) = b # rest"
| "pendingOf (AwaitDelete b rest c) = rest"
| "pendingOf AwaitRequery = []"

text \<open>Either no pass is suspended and the in-flight flag is clear, or exactly one is and
  the flag is set.\<close>

definition oneTask :: "Sys \<Rightarrow> bool" where
  "oneTask s \<longleftrightarrow> (tasks s = [] \<and> \<not> isSyncing s) \<or> (\<exists>t. tasks s = [t] \<and> isSyncing s)"

text \<open>The suspended \<open>completeSale\<close> waits for the offline buffer, not for the remote
  side.\<close>

fun isSave :: "CheckoutTask \<Rightarrow> bool" where
  "isSave (AwaitSave b) = True"
| "isSave (AwaitMutation b d) = False"

text \<open>
  The events \<open>evs\<close> all happen while a pass is in flight: the flag is set before each of
  them. A trigger among them comes from a callback that holds the set flag, so that it
  starts no further pass. Checkouts may begin among them and the save of an offline
  checkout may be answered; the answer to the remote commit of a direct online checkout
  does not arrive among them, so that the commit calls made are those of the pass.
\<close>

fun duringPass :: "Env \<Rightarrow> Event list \<Rightarrow> Sys \<Rightarrow> bool" where
  "duringPass env [] s = True"
| "duringPass env (e # es) s =
     (isSyncing s \<and>
      (case e of
         Settle i \<Rightarrow> length (checkouts s) \<le> i \<or> isSave (checkouts s ! i)
       | Trigger \<Rightarrow> seenSyncing s
       | OnlineEvent \<Rightarrow> seenSyncing s
       | _ \<Rightarrow> True) \<and>
      duringPass env es (step env e s))"

text \<open>
  The pass in flight has taken the snapshot \<open>snap\<close> when the log of commit calls was
  \<open>pre\<close>: the bill ids attempted since, followed by those still to attempt, are the bill
  ids of the snapshot.
\<close>

definition inLoop :: "(string \<times> bool) list \<Rightarrow> BillData list \<Rightarrow> Sys \<Rightarrow> bool" where
  "inLoop pre snap s \<longleftrightarrow>
     oneTask s \<and> AwaitSnapshot \<notin> set (tasks s) \<and>
     (\<exists>new. commitCalls s = pre @ new \<and>
        map fst new @ map billId (concat (map pendingOf (tasks s))) = map billId snap)"

text \<open>Two cart lines and a till (a logged-in user, a customer phone, a cart) for the
  checkout examples.\<close>

definition saltItem :: CartItem where
  "saltItem =
     \<lparr>item_id = ''salt'', item_name = ''Salt'', category = ''grocery'', quantity = 9,
      unit_price = 20, is_available = True, cart_quantity = 1\<rparr>"

definition riceItem :: CartItem where
  "riceItem =
     \<lparr>item_id = ''rice'', item_name = ''Rice 1kg'', category = ''grocery'', quantity = 40,
      unit_price = 60, is_available = True, cart_quantity = 2\<rparr>"

definition tillWithCart :: "bool \<Rightarrow> CartItem list \<Rightarrow> Sys" where
  "tillWithCart onLine c =
     (initialState onLine (Some ''u1'') [])
       \<lparr>cart := c,
        customerInfo := \<lparr>name = [], phone = ''9876543210'', email = [], address = []\<rparr>\<rparr>"

section \<open>Properties of the remote commit\<close>

lemma decrementStock_eq:
  "decrementStock env its s =
     s\<lparr>stockCalls := stockCalls s @ stockLog env (length (stockCalls s)) its,
       console := console s @ stockWarnings env (length (stockCalls s)) its\<rparr>"
  by (induction its arbitrary: s) (auto simp: stockLog_def stockWarnings_def split: option.splits)

lemma processSaleMutation_fail:
  "insertError env (length (commitCalls s)) = Some msg \<Longrightarrow>
   processSaleMutation env b s =
     (Inl (''Transaction failed: '' @ msg), s\<lparr>commitCalls := commitCalls s @ [(billId b, False)]\<rparr>)"
  by (simp add: processSaleMutation_def)

lemma processSaleMutation_ok:
  "insertError env (length (commitCalls s)) = None \<Longrightarrow>
   processSaleMutation env b s =
     (Inr (),
      s\<lparr>sales := sales s @ [saleRow b],
        commitCalls := commitCalls s @ [(billId b, True)],
        stockCalls := stockCalls s @ stockLog env (length (stockCalls s)) (items b),
        console := console s @ stockWarnings env (length (stockCalls s)) (items b)\<rparr>)"
  by (simp add: processSaleMutation_def decrementStock_eq)

lemma stockLog_calls:
  "map (\<lambda>c. (fst c, fst (snd c))) (stockLog env n its) =
     map (\<lambda>it. (bi_id it, bi_cart_quantity it)) its"
  by (induction its arbitrary: n) (simp_all add: stockLog_def)

section \<open>Properties of the loop of a sync pass\<close>

lemma syncLoop_Cons_fail:
  "insertError env (length (commitCalls s)) = Some msg \<Longrightarrow>
   syncLoop env (b # rest) cnt s =
     syncLoop env rest cnt
       (s\<lparr>commitCalls := commitCalls s @ [(billId b, False)],
          console := console s @ [FailedToSync (billId b) (''Transaction failed: '' @ msg)]\<rparr>)"
  by (simp add: processSaleMutation_fail logSyncFailure_def)

lemma syncLoop_Cons_ok:
  "insertError env (length (commitCalls s)) = None \<Longrightarrow>
   syncLoop env (b # rest) cnt s =
     syncLoop env rest (Suc cnt)
       (deleteSyncedSale (billId b)
         (s\<lparr>sales := sales s @ [saleRow b],
            commitCalls := commitCalls s @ [(billId b, True)],
            stockCalls := stockCalls s @ stockLog env (length (stockCalls s)) (items b),
            console := console s @ stockWarnings env (length (stockCalls s)) (items b)\<rparr>))"
  by (simp add: processSaleMutation_ok)

declare syncLoop.simps(2) [simp del]

lemma syncLoop_commitCalls:
  "commitCalls (fst (syncLoop env bs cnt s)) =
     commitCalls s @ attemptsOf env (length (commitCalls s)) bs"
proof (induction bs arbitrary: s cnt)
  case Nil
  show ?case by (simp add: attemptsOf_def)
next
  case (Cons b rest)
  show ?case
  proof (cases "insertError env (length (commitCalls s))")
    case None
    then show ?thesis
      by (simp add: syncLoop_Cons_ok Cons.IH deleteSyncedSale_def attemptsOf_def)
  next
    case (Some msg)
    then show ?thesis
      by (simp add: syncLoop_Cons_fail Cons.IH attemptsOf_def)
  qed
qed

lemma syncLoop_results:
  "deleteCalls (fst (syncLoop env bs cnt s)) =
     deleteCalls s @ map billId (committedOf env (length (commitCalls s)) bs) \<and>
   sales (fst (syncLoop env bs cnt s)) =
     sales s @ map saleRow (committedOf env (length (commitCalls s)) bs) \<and>
   snd (syncLoop env bs cnt s) = cnt + length (committedOf env (length (commitCalls s)) bs)"
proof (induction bs arbitrary: s cnt)
  case Nil
  show ?case by (simp add: committedOf_def)
next
  case (Cons b rest)
  show ?case
  proof (cases "insertError env (length (commitCalls s))")
    case None
    then show ?thesis
      by (simp add: syncLoop_Cons_ok Cons.IH deleteSyncedSale_def committedOf_def)
  next
    case (Some msg)
    then show ?thesis
      by (simp add: syncLoop_Cons_fail Cons.IH committedOf_def)
  qed
qed

lemma syncLoop_store:
  "storageAvailable s \<Longrightarrow>
   store (fst (syncLoop env bs cnt s)) =
     filter (\<lambda>b. billId b \<notin> billId ` set (committedOf env (length (commitCalls s)) bs)) (store s)"
proof (induction bs arbitrary: s cnt)
  case Nil
  show ?case by (simp add: committedOf_def)
next
  case (Cons b rest)
  show ?case
  proof (cases "insertError env (length (commitCalls s))")
    case None
    then show ?thesis using Cons.prems
      by (simp add: syncLoop_Cons_ok Cons.IH deleteSyncedSale_def committedOf_def conj_commute)
  next
    case (Some msg)
    then show ?thesis using Cons.prems
      by (simp add: syncLoop_Cons_fail Cons.IH committedOf_def)
  qed
qed

lemma untouched_refl: "untouched s s"
  by (simp add: untouched_def)

lemma untouched_trans:
  assumes a: "untouched s s1" and b: "untouched s1 s2"
  shows "untouched s s2"
  unfolding untouched_def
  by (subst b [unfolded untouched_def], subst a [unfolded untouched_def]) simp

lemma syncLoop_untouched: "untouched s (fst (syncLoop env bs cnt s))"
proof (induction bs arbitrary: s cnt)
  case Nil
  show ?case by (simp add: untouched_refl)
next
  case (Cons b rest)
  show ?case
  proof (cases "insertError env (length (commitCalls s))")
    case None
    show ?thesis
      unfolding syncLoop_Cons_ok [OF None]
      by (rule untouched_trans [OF _ Cons.IH]) (simp add: untouched_def deleteSyncedSale_def)
  next
    case (Some msg)
    show ?thesis
      unfolding syncLoop_Cons_fail [OF Some]
      by (rule untouched_trans [OF _ Cons.IH]) (simp add: untouched_def)
  qed
qed

lemma untouchedD:
  assumes "untouched s s'"
  shows "isSyncing s' = isSyncing s" "user s' = user s"
    "storageAvailable s' = storageAvailable s" "toasts s' = toasts s"
    "readCalls s' = readCalls s" "pendingSaleCount s' = pendingSaleCount s"
    "tasks s' = tasks s" "isOffline s' = isOffline s" "cart s' = cart s"
    "customerInfo s' = customerInfo s" "saleNotes s' = saleNotes s"
    "activeTab s' = activeTab s" "dialogs s' = dialogs s"
    "completedBill s' = completedBill s" "paymentBillId s' = paymentBillId s"
    "seenSyncing s' = seenSyncing s" "seenUser s' = seenUser s"
  by (subst assms [unfolded untouched_def], simp)+

lemmas syncLoop_frame = untouchedD [OF syncLoop_untouched]

section \<open>Properties of one sync pass\<close>

lemma committedOf_subset: "set (committedOf env n bs) \<subseteq> set bs"
  by (induction bs arbitrary: n) (auto simp: committedOf_def)

lemma committedOf_Cons:
  "committedOf env n (b # bs) =
     (if insertError env n = None then b # committedOf env (Suc n) bs
      else committedOf env (Suc n) bs)"
  by (simp add: committedOf_def)

lemma failedOf_Cons:
  "failedOf env n (b # bs) =
     (if insertError env n = None then failedOf env (Suc n) bs
      else b # failedOf env (Suc n) bs)"
  by (simp add: failedOf_def)

lemma outcomes_Nil [simp]:
  "committedOf env n [] = []" "failedOf env n [] = []" "attemptsOf env n [] = []"
  by (simp_all add: committedOf_def failedOf_def attemptsOf_def)

lemma attemptsOf_Cons:
  "attemptsOf env n (b # bs) = (billId b, insertError env n = None) # attemptsOf env (Suc n) bs"
  by (simp add: attemptsOf_def)

lemma remove_committed:
  "distinct (map billId bs) \<Longrightarrow>
   filter (\<lambda>b. billId b \<notin> billId ` set (committedOf env n bs)) bs = failedOf env n bs"
proof (induction bs arbitrary: n)
  case Nil
  show ?case by (simp add: failedOf_def)
next
  case (Cons b bs)
  have notin: "billId b \<notin> billId ` set (committedOf env (Suc n) bs)"
    using Cons.prems committedOf_subset [of env "Suc n" bs] by auto
  have other: "\<forall>x\<in>set bs. billId x \<noteq> billId b"
    using Cons.prems by (auto simp: image_iff)
  have drop_b: "filter (\<lambda>x. billId x \<noteq> billId b \<and> P x) bs = filter P bs" for P
    by (rule filter_cong) (simp_all add: other)
  show ?case
    using Cons.prems notin
    by (simp add: committedOf_Cons failedOf_Cons Cons.IH drop_b)
qed

lemma syncOfflineSales_unfold:
  assumes idle: "\<not> seenSyncing s" "seenUser s \<noteq> None" and avail: "storageAvailable s"
  shows "syncOfflineSales env s =
     (if store s = []
      then s\<lparr>isSyncing := False, readCalls := Suc (readCalls s), pendingSaleCount := 0\<rparr>
      else requery (announce
        (snd (syncLoop env (store s) 0
           (addToast (SyncingToast (length (store s)))
              (s\<lparr>isSyncing := True, readCalls := Suc (readCalls s),
                 pendingSaleCount := length (store s)\<rparr>))))
        (fst (syncLoop env (store s) 0
           (addToast (SyncingToast (length (store s)))
              (s\<lparr>isSyncing := True, readCalls := Suc (readCalls s),
                 pendingSaleCount := length (store s)\<rparr>))))))"
  using assms by (auto simp: syncOfflineSales_def getOfflineSales_def Let_def split_beta)

lemma requery_fields:
  "commitCalls (requery s) = commitCalls s" "deleteCalls (requery s) = deleteCalls s"
  "sales (requery s) = sales s" "store (requery s) = store s" "toasts (requery s) = toasts s"
  "seenSyncing (requery s) = seenSyncing s" "seenUser (requery s) = seenUser s"
  "storageAvailable (requery s) = storageAvailable s"
  "tasks (requery s) = tasks s" "\<not> isSyncing (requery s)"
  "pendingSaleCount (requery s) = length (getOfflineSales s)"
  by (simp_all add: requery_def)

lemma announce_fields:
  "commitCalls (announce c s) = commitCalls s" "deleteCalls (announce c s) = deleteCalls s"
  "sales (announce c s) = sales s" "store (announce c s) = store s"
  "toasts (announce c s) = toasts s @ (if c > 0 then [SyncCompleteToast c] else [])"
  "seenSyncing (announce c s) = seenSyncing s" "seenUser (announce c s) = seenUser s"
  "storageAvailable (announce c s) = storageAvailable s"
  "tasks (announce c s) = tasks s" "isSyncing (announce c s) = isSyncing s"
  by (simp_all add: announce_def addToast_def)

lemma syncOfflineSales_pass:
  assumes idle: "\<not> seenSyncing s" "seenUser s \<noteq> None" and avail: "storageAvailable s"
  shows "commitCalls (syncOfflineSales env s) =
           commitCalls s @ attemptsOf env (length (commitCalls s)) (store s)"
    and "deleteCalls (syncOfflineSales env s) =
           deleteCalls s @ map billId (committedOf env (length (commitCalls s)) (store s))"
    and "sales (syncOfflineSales env s) =
           sales s @ map saleRow (committedOf env (length (commitCalls s)) (store s))"
    and "store (syncOfflineSales env s) =
           filter (\<lambda>b. billId b \<notin> billId ` set (committedOf env (length (commitCalls s)) (store s))) (store s)"
    and "pendingSaleCount (syncOfflineSales env s) = length (store (syncOfflineSales env s))"
    and "toasts (syncOfflineSales env s) =
           toasts s @ (if store s = [] then []
              else SyncingToast (length (store s)) #
                (if committedOf env (length (commitCalls s)) (store s) = [] then []
                 else [SyncCompleteToast (length (committedOf env (length (commitCalls s)) (store s)))]))"
    and "\<not> isSyncing (syncOfflineSales env s)"
    and "seenSyncing (syncOfflineSales env s) = seenSyncing s \<and>
         seenUser (syncOfflineSales env s) = seenUser s"
    and "storageAvailable (syncOfflineSales env s)"
    and "tasks (syncOfflineSales env s) = tasks s"
  using assms
  by (simp_all add: syncOfflineSales_unfold requery_fields announce_fields syncLoop_commitCalls
      syncLoop_results syncLoop_store syncLoop_frame addToast_def getOfflineSales_def
      attemptsOf_def committedOf_def)

section \<open>Claims about the remote commit and about one pass\<close>

text \<open>
  Claim C5. The remote commit fails exactly when the insert into \<open>sales\<close> fails, and then
  nothing is recorded and no stock call is made. When the insert succeeds the row is
  recorded, one \<open>decrement_stock\<close> call is made for every line of the bill, in order,
  whatever the earlier calls answered; each failing call leaves a warning on the console
  and nothing else; and in the sync loop the record is then removed from the buffer and
  counted as a success.
\<close>

theorem stock_failure_is_not_fatal:
  "let n = length (commitCalls s); m = length (stockCalls s);
       r = fst (processSaleMutation env b s); s' = snd (processSaleMutation env b s)
   in (isl r \<longleftrightarrow> insertError env n \<noteq> None) \<and>
      (insertError env n \<noteq> None \<longrightarrow> sales s' = sales s \<and> stockCalls s' = stockCalls s) \<and>
      (insertError env n = None \<longrightarrow>
         sales s' = sales s @ [saleRow b] \<and>
         stockCalls s' = stockCalls s @ stockLog env m (items b) \<and>
         map (\<lambda>c. (fst c, fst (snd c))) (stockLog env m (items b)) =
           map (\<lambda>it. (bi_id it, bi_cart_quantity it)) (items b) \<and>
         console s' = console s @ stockWarnings env m (items b) \<and>
         (storageAvailable s \<longrightarrow>
            store (fst (syncLoop env [b] c s)) = filter (\<lambda>x. billId x \<noteq> billId b) (store s) \<and>
            snd (syncLoop env [b] c s) = Suc c))"
proof (cases "insertError env (length (commitCalls s))")
  case None
  then show ?thesis
    by (simp add: Let_def processSaleMutation_ok stockLog_calls syncLoop_Cons_ok
        deleteSyncedSale_def)
next
  case (Some msg)
  then show ?thesis
    by (simp add: Let_def processSaleMutation_fail)
qed

theorem stock_failure_is_not_fatal_witness:
  "(let b = exampleBill ''INV-1''; s = initialState True (Some ''u1'') [b];
        env = remoteFailing [] [0];
        r = fst (processSaleMutation env b s); s' = snd (processSaleMutation env b s)
    in insertError env (length (commitCalls s)) = None \<and> storageAvailable s \<and>
       stockError env (length (stockCalls s)) \<noteq> None \<and> \<not> isl r \<and>
       sales s' = [saleRow b] \<and> stockCalls s' = [(''rice'', 2, False)] \<and>
       console s' = [CouldNotDecrement ''Rice 1kg'' ''no such item''] \<and>
       store (fst (syncLoop env [b] 0 s)) = [] \<and> snd (syncLoop env [b] 0 s) = 1)"
  using stock_failure_is_not_fatal
    [of "initialState True (Some ''u1'') [exampleBill ''INV-1'']" "remoteFailing [] [0]"
        "exampleBill ''INV-1''" 0]
  by (simp add: Let_def initialState_def remoteFailing_def exampleBill_def stockLog_def
      stockWarnings_def)

text \<open>
  Claim C3. A pass started by a callback that holds no set flag and a user, with the
  storage available and distinct bill ids in the buffer, and run to its end, attempts
  every buffered record in order, whatever the earlier attempts
  answered; the records whose commit failed are exactly what the buffer holds afterwards;
  only the committed ones are removed and counted; and the pending count is the number
  of failed records. In particular, with three records of which only the second fails,
  the first and the third are removed, the second remains, and the pending count is 1.
\<close>

theorem partial_batch_resilience:
  assumes "\<not> seenSyncing s" and "seenUser s \<noteq> None" and "storageAvailable s"
    and "distinct (map billId (store s))"
  shows "let n = length (commitCalls s); s' = syncOfflineSales env s in
     commitCalls s' = commitCalls s @ attemptsOf env n (store s) \<and>
     store s' = failedOf env n (store s) \<and>
     deleteCalls s' = deleteCalls s @ map billId (committedOf env n (store s)) \<and>
     pendingSaleCount s' = length (failedOf env n (store s)) \<and>
     syncCompleteCounts (toasts s') =
       syncCompleteCounts (toasts s) @
         (if committedOf env n (store s) = [] then [] else [length (committedOf env n (store s))]) \<and>
     (\<forall>b1 b2 b3. store s = [b1, b2, b3] \<and> insertError env n = None \<and>
         insertError env (n + 1) \<noteq> None \<and> insertError env (n + 2) = None \<longrightarrow>
       store s' = [b2] \<and> pendingSaleCount s' = 1 \<and>
       deleteCalls s' = deleteCalls s @ [billId b1, billId b3])"
proof -
  let ?n = "length (commitCalls s)"
  let ?s' = "syncOfflineSales env s"
  note pass = syncOfflineSales_pass [OF assms(1-3), of env]
  have st: "store ?s' = failedOf env ?n (store s)"
    by (simp add: pass(4) remove_committed [OF assms(4)])
  have cnt: "pendingSaleCount ?s' = length (failedOf env ?n (store s))"
    by (simp add: pass(5) st)
  have dc: "deleteCalls ?s' = deleteCalls s @ map billId (committedOf env ?n (store s))"
    by (rule pass(2))
  have sc_app: "syncCompleteCounts (xs @ ys) = syncCompleteCounts xs @ syncCompleteCounts ys" for xs ys
    by (induction xs rule: syncCompleteCounts.induct) simp_all
  have ts: "syncCompleteCounts (toasts ?s') =
       syncCompleteCounts (toasts s) @
         (if committedOf env ?n (store s) = [] then [] else [length (committedOf env ?n (store s))])"
    by (simp add: pass(6) sc_app)
  have three: "store ?s' = [b2] \<and> pendingSaleCount ?s' = 1 \<and>
       deleteCalls ?s' = deleteCalls s @ [billId b1, billId b3]"
    if "store s = [b1, b2, b3]" "insertError env ?n = None"
       "insertError env (?n + 1) \<noteq> None" "insertError env (?n + 2) = None" for b1 b2 b3
    using that by (auto simp add: st cnt dc failedOf_Cons committedOf_Cons failedOf_def committedOf_def)
  show ?thesis
    unfolding Let_def using pass(1) st dc cnt ts three by blast
qed

theorem partial_batch_resilience_witness:
  "(let s = initialState True (Some ''u1'')
              [exampleBill ''INV-1'', exampleBill ''INV-2'', exampleBill ''INV-3''];
        s' = syncOfflineSales (remoteFailing [1] []) s
    in \<not> seenSyncing s \<and> seenUser s \<noteq> None \<and> storageAvailable s \<and>
       distinct (map billId (store s)) \<and>
       store s' = [exampleBill ''INV-2''] \<and> pendingSaleCount s' = 1 \<and>
       deleteCalls s' = [''INV-1'', ''INV-3''])"
proof -
  let ?s = "initialState True (Some ''u1'')
              [exampleBill ''INV-1'', exampleBill ''INV-2'', exampleBill ''INV-3'']"
  have h: "\<not> seenSyncing ?s" "seenUser ?s \<noteq> None" "storageAvailable ?s"
    "distinct (map billId (store ?s))"
    by (simp_all add: initialState_def exampleBill_def)
  show ?thesis
    using h partial_batch_resilience [OF h, of "remoteFailing [1] []"]
    by (simp add: Let_def initialState_def remoteFailing_def exampleBill_def
        failedOf_Cons committedOf_Cons)
qed

text \<open>
  A callback that holds no user (the component rendered without one) changes nothing when
  it is called, and the browser's online event, which clears the offline flag and shows
  a toast before it calls the callback, reads no buffer, makes no remote call and leaves
  the in-flight flag and the pending count as they were. After a render the callback
  holds the user of the authentication context.
\<close>

lemma no_seen_user_noop:
  assumes "seenUser s = None"
  shows "startSync s = s \<and> step env Trigger s = s \<and> syncOfflineSales env s = s \<and>
     readCalls (step env OnlineEvent s) = readCalls s \<and>
     commitCalls (step env OnlineEvent s) = commitCalls s \<and>
     isSyncing (step env OnlineEvent s) = isSyncing s \<and>
     pendingSaleCount (step env OnlineEvent s) = pendingSaleCount s \<and>
     store (step env OnlineEvent s) = store s \<and>
     tasks (step env OnlineEvent s) = tasks s"
  using assms
  by (simp add: startSync_def syncOfflineSales_def updateOnlineStatus_def addToast_def)

lemma rendered_without_user_noop:
  assumes "user s = None"
  shows "startSync (render s) = render s"
    and "syncOfflineSales env (render s) = render s"
  using assms by (simp_all add: startSync_def syncOfflineSales_def render_def)

text \<open>
  Claim C10, evaluated on the code. The page is mounted offline with the user \<open>u1\<close> and
  one buffered sale. The authentication context signs the user out, and the browser's
  \<open>online\<close> event arrives before the component has rendered again: the installed
  callback still holds \<open>u1\<close>, its guard \<open>!user\<close> lets the call through, and with no user
  authenticated the pass sets the in-flight flag, reads the buffer, sets the pending
  count, commits the sale remotely under \<open>u1\<close> and removes it from the buffer. Had the
  component rendered in between, the event would have started nothing.
\<close>

theorem signed_out_trigger_starts_pass:
  "(let s0 = initialState False (Some ''u1'') [exampleBill ''INV-1''];
        env = remoteFailing [] [];
        s1 = run env [AuthStateChange None, OnlineEvent] s0;
        s2 = run env [AuthStateChange None, OnlineEvent, Resume 0] s0;
        s = run env [AuthStateChange None, OnlineEvent, Resume 0, Resume 0, Resume 0, Resume 0] s0;
        r = run env [AuthStateChange None, Render, OnlineEvent] s0
    in user s1 = None \<and> isSyncing s1 \<and> tasks s1 = [AwaitSnapshot] \<and>
       readCalls s2 = 1 \<and> pendingSaleCount s2 = 1 \<and>
       user s = None \<and> readCalls s = 2 \<and> commitCalls s = [(''INV-1'', True)] \<and>
       map user_id (sales s) = [''u1''] \<and> deleteCalls s = [''INV-1''] \<and> store s = [] \<and>
       syncCompleteCounts (toasts s) = [1] \<and>
       tasks r = [] \<and> \<not> isSyncing r \<and> readCalls r = 0 \<and> commitCalls r = [] \<and>
       pendingSaleCount r = 0 \<and> map billId (store r) = [''INV-1''])"
proof -
  let ?init = "initialState False (Some ''u1'') [exampleBill ''INV-1'']"
  let ?env = "remoteFailing [] []"
  let ?s1 = "run ?env [AuthStateChange None, OnlineEvent] ?init"
  let ?s2 = "run ?env [AuthStateChange None, OnlineEvent, Resume 0] ?init"
  let ?final = "run ?env [AuthStateChange None, OnlineEvent, Resume 0, Resume 0, Resume 0, Resume 0] ?init"
  let ?r = "run ?env [AuthStateChange None, Render, OnlineEvent] ?init"
  have 1: "user ?s1 = None" "isSyncing ?s1" "tasks ?s1 = [AwaitSnapshot]" by code_simp+
  have 2: "readCalls ?s2 = 1" "pendingSaleCount ?s2 = 1" by code_simp+
  have 3: "user ?final = None" "readCalls ?final = 2" "commitCalls ?final = [(''INV-1'', True)]"
    by code_simp+
  have 4: "map user_id (sales ?final) = [''u1'']" "deleteCalls ?final = [''INV-1'']"
    "store ?final = []" "syncCompleteCounts (toasts ?final) = [1]"
    by code_simp+
  have 5: "tasks ?r = []" "\<not> isSyncing ?r" "readCalls ?r = 0" "commitCalls ?r = []"
    "pendingSaleCount ?r = 0" "map billId (store ?r) = [''INV-1'']"
    by code_simp+
  show ?thesis unfolding Let_def by (intro conjI) (fact 1 2 3 4 5)+
qed

section \<open>Properties of a sequence of passes\<close>

lemma syncCompleteCounts_append:
  "syncCompleteCounts (xs @ ys) = syncCompleteCounts xs @ syncCompleteCounts ys"
  by (induction xs rule: syncCompleteCounts.induct) simp_all

lemma successful_attempts:
  "map fst (filter snd (attemptsOf env n bs)) = map billId (committedOf env n bs)"
  by (induction bs arbitrary: n) (simp_all add: attemptsOf_Cons committedOf_Cons)

lemma attempts_on_absent:
  "k \<notin> billId ` set bs \<Longrightarrow> filter (\<lambda>c. fst c = k) (attemptsOf env n bs) = []"
  by (induction bs arbitrary: n) (auto simp: attemptsOf_Cons)

lemma attempts_on_present:
  "distinct (map billId bs) \<Longrightarrow> b \<in> set bs \<Longrightarrow>
   filter (\<lambda>c. fst c = billId b) (attemptsOf env n bs) =
     [(billId b, billId b \<in> billId ` set (committedOf env n bs))]"
proof (induction bs arbitrary: n)
  case Nil
  then show ?case by simp
next
  case (Cons x bs)
  have sub: "billId ` set (committedOf env (Suc n) bs) \<subseteq> billId ` set bs"
    using committedOf_subset [of env "Suc n" bs] by blast
  show ?case
  proof (cases "billId x = billId b")
    case True
    then have nb: "billId b \<notin> billId ` set bs"
      using Cons.prems(1) by (auto simp: image_iff)
    with sub have "billId b \<notin> billId ` set (committedOf env (Suc n) bs)" by blast
    with True nb show ?thesis
      by (simp add: attemptsOf_Cons committedOf_Cons attempts_on_absent)
  next
    case False
    then have "b \<in> set bs" using Cons.prems(2) by auto
    with False Cons.prems(1) Cons.IH [of "Suc n"] show ?thesis
      by (simp add: attemptsOf_Cons committedOf_Cons)
  qed
qed

lemma committedOf_distinct:
  "distinct (map billId bs) \<Longrightarrow> distinct (map billId (committedOf env n bs))"
proof (induction bs arbitrary: n)
  case Nil
  then show ?case by simp
next
  case (Cons x bs)
  have "billId ` set (committedOf env (Suc n) bs) \<subseteq> billId ` set bs"
    using committedOf_subset [of env "Suc n" bs] by blast
  with Cons show ?case
    by (auto simp: committedOf_Cons image_iff)
qed

lemma deliveryInv_start:
  "\<not> seenSyncing s0 \<Longrightarrow> seenUser s0 \<noteq> None \<Longrightarrow> storageAvailable s0 \<Longrightarrow>
   deliveryInv 0 s0 s0 [] [] []"
  by (simp add: deliveryInv_def)

lemma deliveryInv_step:
  assumes d0: "distinct (map billId (store s0))"
    and inv: "deliveryInv k s0 s cs ds ts"
  shows "\<exists>cs' ds' ts'. deliveryInv (Suc k) s0 (syncOfflineSales env s) cs' ds' ts'"
proof -
  let ?n = "length (commitCalls s)"
  let ?C = "committedOf env ?n (store s)"
  let ?A = "attemptsOf env ?n (store s)"
  let ?T = "if store s = [] then []
            else SyncingToast (length (store s)) #
              (if ?C = [] then [] else [SyncCompleteToast (length ?C)])"
  let ?s' = "syncOfflineSales env s"
  from inv have idle: "\<not> seenSyncing s" "seenUser s \<noteq> None" "storageAvailable s"
    and cc: "commitCalls s = commitCalls s0 @ cs"
    and dc: "deleteCalls s = deleteCalls s0 @ map billId ds"
    and sl: "sales s = sales s0 @ map saleRow ds"
    and tt: "toasts s = toasts s0 @ ts"
    and ok: "map fst (filter snd cs) = map billId ds"
    and dd: "distinct (map billId ds)" and sub: "set ds \<subseteq> set (store s0)"
    and sm: "sum_list (syncCompleteCounts ts) = length ds"
    and st: "store s = filter (\<lambda>b. billId b \<notin> billId ` set ds) (store s0)"
    and per: "\<forall>b\<in>set (store s0).
        if billId b \<in> billId ` set ds
        then \<exists>m<k. filter (\<lambda>c. fst c = billId b) cs =
                replicate m (billId b, False) @ [(billId b, True)]
        else filter (\<lambda>c. fst c = billId b) cs = replicate k (billId b, False)"
    by (simp_all add: deliveryInv_def)
  note pass = syncOfflineSales_pass [OF idle, of env]
  have ds: "distinct (map billId (store s))"
    unfolding st using d0 by (simp add: distinct_map_filter)
  have Csub: "set ?C \<subseteq> set (store s)" by (rule committedOf_subset)
  have Cfresh: "billId ` set ?C \<inter> billId ` set ds = {}"
    using Csub unfolding st by auto
  have Cd: "distinct (map billId ?C)" by (rule committedOf_distinct [OF ds])
  have 1: "commitCalls ?s' = commitCalls s0 @ (cs @ ?A)" by (simp add: pass(1) cc)
  have 2: "deleteCalls ?s' = deleteCalls s0 @ map billId (ds @ ?C)" by (simp add: pass(2) dc)
  have 3: "sales ?s' = sales s0 @ map saleRow (ds @ ?C)" by (simp add: pass(3) sl)
  have 4: "toasts ?s' = toasts s0 @ (ts @ ?T)" by (simp add: pass(6) tt)
  have 5: "map fst (filter snd (cs @ ?A)) = map billId (ds @ ?C)"
    by (simp add: ok successful_attempts)
  have 6: "distinct (map billId (ds @ ?C))"
    using dd Cd Cfresh by auto
  have 7: "set (ds @ ?C) \<subseteq> set (store s0)"
    using sub Csub unfolding st by auto
  have 8: "sum_list (syncCompleteCounts (ts @ ?T)) = length (ds @ ?C)"
    by (simp add: syncCompleteCounts_append sm)
  have 9: "store ?s' = filter (\<lambda>b. billId b \<notin> billId ` set (ds @ ?C)) (store s0)"
    unfolding pass(4) st by (simp add: image_Un conj_commute)
  have 10: "if billId b \<in> billId ` set (ds @ ?C)
        then \<exists>m<Suc k. filter (\<lambda>c. fst c = billId b) (cs @ ?A) =
                replicate m (billId b, False) @ [(billId b, True)]
        else filter (\<lambda>c. fst c = billId b) (cs @ ?A) = replicate (Suc k) (billId b, False)"
    if b: "b \<in> set (store s0)" for b
  proof (cases "billId b \<in> billId ` set ds")
    case True
    then have "billId b \<notin> billId ` set (store s)" unfolding st by auto
    then have "filter (\<lambda>c. fst c = billId b) ?A = []" by (rule attempts_on_absent)
    moreover from per b have "if billId b \<in> billId ` set ds
        then \<exists>m<k. filter (\<lambda>c. fst c = billId b) cs =
                replicate m (billId b, False) @ [(billId b, True)]
        else filter (\<lambda>c. fst c = billId b) cs = replicate k (billId b, False)"
      by (rule bspec)
    with True obtain m where "m < k"
      "filter (\<lambda>c. fst c = billId b) cs = replicate m (billId b, False) @ [(billId b, True)]"
      by (simp only: if_True) blast
    moreover have "billId b \<in> billId ` set (ds @ ?C)" using True by (simp add: image_Un)
    ultimately show ?thesis by (simp only: if_True filter_append append_Nil2) (metis less_Suc_eq)
  next
    case False
    with b have bs: "b \<in> set (store s)" unfolding st by simp
    have A: "filter (\<lambda>c. fst c = billId b) ?A = [(billId b, billId b \<in> billId ` set ?C)]"
      by (rule attempts_on_present [OF ds bs])
    from per b have "if billId b \<in> billId ` set ds
        then \<exists>m<k. filter (\<lambda>c. fst c = billId b) cs =
                replicate m (billId b, False) @ [(billId b, True)]
        else filter (\<lambda>c. fst c = billId b) cs = replicate k (billId b, False)"
      by (rule bspec)
    with False have old: "filter (\<lambda>c. fst c = billId b) cs = replicate k (billId b, False)"
      by (simp only: if_False)
    show ?thesis
    proof (cases "billId b \<in> billId ` set ?C")
      case True
      then have "billId b \<in> billId ` set (ds @ ?C)" by (simp add: image_Un)
      then show ?thesis using A old True
        by (simp only: if_True filter_append) (metis lessI)
    next
      case notC: False
      have "replicate k (billId b, False) @ [(billId b, False)] = replicate (Suc k) (billId b, False)"
        by (simp add: replicate_append_same)
      moreover have "billId b \<notin> billId ` set (ds @ ?C)" using False notC by (simp add: image_Un)
      ultimately show ?thesis using A old notC
        by (simp only: if_False filter_append)
    qed
  qed
  have u: "\<not> seenSyncing ?s'" "seenUser ?s' \<noteq> None" using pass(8) idle(1,2) by simp_all
  have "deliveryInv (Suc k) s0 ?s' (cs @ ?A) (ds @ ?C) (ts @ ?T)"
    unfolding deliveryInv_def
    by (intro conjI ballI) (fact u pass(9) 1 2 3 4 5 6 7 8 9 | erule 10)+
  then show ?thesis by blast
qed

lemma deliveryInv_passes:
  assumes "\<not> seenSyncing s0" "seenUser s0 \<noteq> None" "storageAvailable s0"
    and "distinct (map billId (store s0))"
  shows "\<exists>cs ds ts. deliveryInv k s0 (syncPasses env k s0) cs ds ts"
proof (induction k)
  case 0
  show ?case using deliveryInv_start [OF assms(1-3)] by auto
next
  case (Suc k)
  then obtain cs ds ts where "deliveryInv k s0 (syncPasses env k s0) cs ds ts" by blast
  from deliveryInv_step [OF assms(4) this, of env] show ?case by simp
qed


lemma count_list_distinct: "distinct xs \<Longrightarrow> x \<in> set xs \<Longrightarrow> count_list xs x = 1"
  by (induction xs) (auto simp: count_list_0_iff)

text \<open>
  Passes that do not overlap. Take \<open>k\<close> passes, one after the other, started by a callback that holds no
  set flag and a user, with the storage available and distinct bill ids in the buffer,
  and any schedule of remote failures. The
  successful commit calls, the calls of \<open>deleteSyncedSale\<close> and the rows added to the
  remote table are the same records \<open>ds\<close> in the same order, no bill id twice, and the
  counts of the \<open>Sync Complete\<close> toasts add up to their number. Every record buffered at
  the start either failed in every one of the \<open>k\<close> passes and is still buffered (never
  removed, never counted), or failed in \<open>m < k\<close> passes, was then committed once, was
  removed once, and was not attempted again.
\<close>

lemma sequential_passes_deliver_once:
  assumes "\<not> seenSyncing s0" and "seenUser s0 \<noteq> None" and "storageAvailable s0"
    and "distinct (map billId (store s0))"
  shows "\<exists>cs ds ts.
     commitCalls (syncPasses env k s0) = commitCalls s0 @ cs \<and>
     deleteCalls (syncPasses env k s0) = deleteCalls s0 @ map billId ds \<and>
     sales (syncPasses env k s0) = sales s0 @ map saleRow ds \<and>
     toasts (syncPasses env k s0) = toasts s0 @ ts \<and>
     map fst (filter snd cs) = map billId ds \<and>
     distinct (map billId ds) \<and>
     sum_list (syncCompleteCounts ts) = length ds \<and>
     (\<forall>b\<in>set (store s0).
        (b \<notin> set (store (syncPasses env k s0)) \<and> count_list (map billId ds) (billId b) = 1 \<and>
         (\<exists>m<k. filter (\<lambda>c. fst c = billId b) cs =
                  replicate m (billId b, False) @ [(billId b, True)]))
        \<or>
        (b \<in> set (store (syncPasses env k s0)) \<and> count_list (map billId ds) (billId b) = 0 \<and>
         filter (\<lambda>c. fst c = billId b) cs = replicate k (billId b, False)))"
proof -
  let ?s = "syncPasses env k s0"
  from deliveryInv_passes [OF assms, of k env]
  obtain cs ds ts where inv: "deliveryInv k s0 ?s cs ds ts" by blast
  then have st: "store ?s = filter (\<lambda>b. billId b \<notin> billId ` set ds) (store s0)"
    and dd: "distinct (map billId ds)"
    and per: "\<forall>b\<in>set (store s0).
        if billId b \<in> billId ` set ds
        then \<exists>m<k. filter (\<lambda>c. fst c = billId b) cs =
                replicate m (billId b, False) @ [(billId b, True)]
        else filter (\<lambda>c. fst c = billId b) cs = replicate k (billId b, False)"
    by (simp_all add: deliveryInv_def)
  have each: "(b \<notin> set (store ?s) \<and> count_list (map billId ds) (billId b) = 1 \<and>
         (\<exists>m<k. filter (\<lambda>c. fst c = billId b) cs =
                  replicate m (billId b, False) @ [(billId b, True)]))
        \<or>
        (b \<in> set (store ?s) \<and> count_list (map billId ds) (billId b) = 0 \<and>
         filter (\<lambda>c. fst c = billId b) cs = replicate k (billId b, False))"
    if b: "b \<in> set (store s0)" for b
  proof -
    from per b have c: "if billId b \<in> billId ` set ds
        then \<exists>m<k. filter (\<lambda>c. fst c = billId b) cs =
                replicate m (billId b, False) @ [(billId b, True)]
        else filter (\<lambda>c. fst c = billId b) cs = replicate k (billId b, False)"
      by (rule bspec)
    show ?thesis
    proof (cases "billId b \<in> billId ` set ds")
      case True
      then have "b \<notin> set (store ?s)" unfolding st by simp
      moreover have "count_list (map billId ds) (billId b) = 1"
        using True by (intro count_list_distinct [OF dd]) simp
      moreover from c True have "\<exists>m<k. filter (\<lambda>c. fst c = billId b) cs =
                  replicate m (billId b, False) @ [(billId b, True)]"
        by (simp only: if_True)
      ultimately show ?thesis by blast
    next
      case False
      then have "b \<in> set (store ?s)" unfolding st using b by simp
      moreover have "count_list (map billId ds) (billId b) = 0"
        using False by (simp add: count_list_0_iff)
      moreover from c False have "filter (\<lambda>c. fst c = billId b) cs = replicate k (billId b, False)"
        by (simp only: if_False)
      ultimately show ?thesis by blast
    qed
  qed
  from inv have
    "commitCalls ?s = commitCalls s0 @ cs" "deleteCalls ?s = deleteCalls s0 @ map billId ds"
    "sales ?s = sales s0 @ map saleRow ds" "toasts ?s = toasts s0 @ ts"
    "map fst (filter snd cs) = map billId ds" "sum_list (syncCompleteCounts ts) = length ds"
    by (simp_all add: deliveryInv_def)
  with dd each show ?thesis by blast
qed

lemma sequential_passes_example:
  "(let s0 = initialState True (Some ''u1'') [exampleBill ''INV-1'', exampleBill ''INV-2''];
        s = syncPasses (remoteFailing [0, 2] []) (Suc (Suc (Suc 0))) s0
    in \<not> seenSyncing s0 \<and> seenUser s0 \<noteq> None \<and> storageAvailable s0 \<and>
       distinct (map billId (store s0)) \<and>
       commitCalls s =
         [(''INV-1'', False), (''INV-2'', True), (''INV-1'', False), (''INV-1'', True)] \<and>
       deleteCalls s = [''INV-2'', ''INV-1''] \<and> store s = [] \<and>
       syncCompleteCounts (toasts s) = [1, 1] \<and>
       (\<exists>cs ds ts.
          commitCalls s = commitCalls s0 @ cs \<and>
          deleteCalls s = deleteCalls s0 @ map billId ds \<and>
          sales s = sales s0 @ map saleRow ds \<and>
          toasts s = toasts s0 @ ts \<and>
          map fst (filter snd cs) = map billId ds \<and>
          distinct (map billId ds) \<and>
          sum_list (syncCompleteCounts ts) = length ds \<and>
          (\<forall>b\<in>set (store s0).
             (b \<notin> set (store s) \<and> count_list (map billId ds) (billId b) = 1 \<and>
              (\<exists>m<Suc (Suc (Suc 0)). filter (\<lambda>c. fst c = billId b) cs =
                       replicate m (billId b, False) @ [(billId b, True)]))
             \<or>
             (b \<in> set (store s) \<and> count_list (map billId ds) (billId b) = 0 \<and>
              filter (\<lambda>c. fst c = billId b) cs =
                replicate (Suc (Suc (Suc 0))) (billId b, False)))))"
proof -
  let ?init = "initialState True (Some ''u1'') [exampleBill ''INV-1'', exampleBill ''INV-2'']"
  let ?final = "syncPasses (remoteFailing [0, 2] []) (Suc (Suc (Suc 0))) ?init"
  have h: "\<not> seenSyncing ?init" "seenUser ?init \<noteq> None" "storageAvailable ?init"
    "distinct (map billId (store ?init))"
    by (simp_all add: initialState_def exampleBill_def)
  note t = sequential_passes_deliver_once [OF h, of "remoteFailing [0, 2] []" "Suc (Suc (Suc 0))"]
  have ev: "commitCalls ?final =
         [(''INV-1'', False), (''INV-2'', True), (''INV-1'', False), (''INV-1'', True)]"
    "deleteCalls ?final = [''INV-2'', ''INV-1'']" "store ?final = []"
    "syncCompleteCounts (toasts ?final) = [1, 1]"
    by (simp_all add: syncOfflineSales_def getOfflineSales_def Let_def syncLoop.simps
        processSaleMutation_def initialState_def remoteFailing_def exampleBill_def
        deleteSyncedSale_def logSyncFailure_def addToast_def announce_def requery_def)
  show ?thesis
    unfolding Let_def using h t ev by (intro conjI) assumption+
qed

text \<open>
  Claim C1, evaluated on the code. The page is mounted online with a user and two
  buffered sales, and its effect starts a pass. Connectivity drops and returns before
  the component has rendered again, so the \<open>online\<close> event runs the callback that still
  holds \<open>isSyncing = false\<close> and starts a second pass while the first is in flight. The
  first insert fails, the later ones succeed. Both passes take the same snapshot:
  \<open>INV-1\<close> fails in the first pass and is committed by the second; \<open>INV-2\<close> is committed
  by the first pass and committed again by the second, \<open>deleteSyncedSale\<close> is called
  twice on it, and it is counted in both \<open>Sync Complete\<close> toasts, which announce three
  sales for two records.
\<close>

theorem overlapping_passes_commit_twice:
  "(let s0 = initialState True (Some ''u1'') [exampleBill ''INV-1'', exampleBill ''INV-2''];
        env = remoteFailing [0] [];
        s = run env [Trigger, OfflineEvent, OnlineEvent, Resume 0, Resume 1, Resume 0, Resume 1,
                     Resume 0, Resume 1, Resume 0, Resume 1, Resume 0, Resume 0, Resume 0] s0
    in \<not> seenSyncing s0 \<and> seenUser s0 = Some ''u1'' \<and> storageAvailable s0 \<and>
       distinct (map billId (store s0)) \<and>
       tasks (run env [Trigger] s0) = [AwaitSnapshot] \<and>
       tasks (run env [Trigger, OfflineEvent, OnlineEvent] s0) = [AwaitSnapshot, AwaitSnapshot] \<and>
       commitCalls s =
         [(''INV-1'', False), (''INV-1'', True), (''INV-2'', True), (''INV-2'', True)] \<and>
       map (\<lambda>r. billId (bill_data r)) (sales s) = [''INV-1'', ''INV-2'', ''INV-2''] \<and>
       deleteCalls s = [''INV-1'', ''INV-2'', ''INV-2''] \<and>
       count_list (map fst (filter snd (commitCalls s))) ''INV-2'' = 2 \<and>
       count_list (deleteCalls s) ''INV-2'' = 2 \<and>
       syncCompleteCounts (toasts s) = [1, 2] \<and>
       tasks s = [] \<and> store s = [] \<and> \<not> isSyncing s)"
proof -
  let ?init = "initialState True (Some ''u1'') [exampleBill ''INV-1'', exampleBill ''INV-2'']"
  let ?env = "remoteFailing [0] []"
  let ?final = "run ?env [Trigger, OfflineEvent, OnlineEvent, Resume 0, Resume 1, Resume 0, Resume 1,
                     Resume 0, Resume 1, Resume 0, Resume 1, Resume 0, Resume 0, Resume 0] ?init"
  have 1: "\<not> seenSyncing ?init" "seenUser ?init = Some ''u1''" "storageAvailable ?init"
    "distinct (map billId (store ?init))"
    by code_simp+
  have 2: "tasks (run ?env [Trigger] ?init) = [AwaitSnapshot]"
    "tasks (run ?env [Trigger, OfflineEvent, OnlineEvent] ?init) = [AwaitSnapshot, AwaitSnapshot]"
    by code_simp+
  have 3: "commitCalls ?final =
         [(''INV-1'', False), (''INV-1'', True), (''INV-2'', True), (''INV-2'', True)]"
    by code_simp
  have 4: "map (\<lambda>r. billId (bill_data r)) (sales ?final) = [''INV-1'', ''INV-2'', ''INV-2'']"
    by code_simp
  have 5: "deleteCalls ?final = [''INV-1'', ''INV-2'', ''INV-2'']" by code_simp
  have 6: "count_list (map fst (filter snd (commitCalls ?final))) ''INV-2'' = 2"
    unfolding 3 by simp
  have 7: "count_list (deleteCalls ?final) ''INV-2'' = 2"
    unfolding 5 by simp
  have 8: "syncCompleteCounts (toasts ?final) = [1, 2]" by code_simp
  have 9: "tasks ?final = []" "store ?final = []" "\<not> isSyncing ?final" by code_simp+
  show ?thesis unfolding Let_def by (intro conjI) (fact 1 2 3 4 5 6 7 8 9)+
qed

section \<open>Properties of a pass that other events interleave with\<close>

lemma processSaleMutation_untouched: "untouched s (snd (processSaleMutation env b s))"
  by (cases "insertError env (length (commitCalls s))")
     (simp_all add: processSaleMutation_ok processSaleMutation_fail untouched_def)

lemmas processSaleMutation_frame = untouchedD [OF processSaleMutation_untouched]

lemma nextIteration_task:
  "snd (nextIteration bs c s) = (case bs of [] \<Rightarrow> AwaitRequery | b # rest \<Rightarrow> AwaitCommit b rest c)"
  by (cases bs) simp_all

lemma nextIteration_state:
  "fst (nextIteration bs c s) = (if bs = [] then announce c s else s)"
  by (cases bs) simp_all

lemma nextIteration_fields:
  "commitCalls (fst (nextIteration bs c s)) = commitCalls s"
  "tasks (fst (nextIteration bs c s)) = tasks s"
  "isSyncing (fst (nextIteration bs c s)) = isSyncing s"
  "store (fst (nextIteration bs c s)) = store s"
  "storageAvailable (fst (nextIteration bs c s)) = storageAvailable s"
  "readCalls (fst (nextIteration bs c s)) = readCalls s"
  "pendingSaleCount (fst (nextIteration bs c s)) = pendingSaleCount s"
  "isOffline (fst (nextIteration bs c s)) = isOffline s"
  "user (fst (nextIteration bs c s)) = user s"
  by (cases bs; simp add: announce_def addToast_def)+

lemma resumeTask_tasks: "tasks (fst (resumeTask env t s)) = tasks s"
  by (cases t)
     (auto simp: Let_def split_beta nextIteration_fields processSaleMutation_frame
        addToast_def logSyncFailure_def deleteSyncedSale_def requery_def
        split: prod.splits sum.splits)


lemma startSync_busy: "seenSyncing s \<Longrightarrow> startSync s = s"
  by (simp add: startSync_def)

lemma proceedToPayment_fields:
  "commitCalls (proceedToPayment now s) = commitCalls s" "store (proceedToPayment now s) = store s"
  "tasks (proceedToPayment now s) = tasks s" "isSyncing (proceedToPayment now s) = isSyncing s"
  "storageAvailable (proceedToPayment now s) = storageAvailable s"
  "user (proceedToPayment now s) = user s"
  by (simp_all add: proceedToPayment_def addToast_def)

lemma completeSale_no_user: "user s = None \<Longrightarrow> completeSale env pm now s = (s, Rejected TypeError)"
  by (simp add: completeSale_def startCheckout_def)

lemma completeSale_offline_saved:
  "user s = Some uid \<Longrightarrow> isOffline s \<Longrightarrow> storageAvailable s \<Longrightarrow>
   completeSale env pm now s =
     (s\<lparr>completedBill := Some (makeBill pm now uid s),
        dialogs := \<lparr>payment = False, success = True, history = False\<rparr>,
        store := upsert (makeBill pm now uid s) (store s),
        pendingSaleCount := Suc (pendingSaleCount s),
        toasts := toasts s @ [SaleSavedOfflineToast]\<rparr>, Resolved)"
  by (simp add: completeSale_def startCheckout_def Let_def showSuccess_def saveSaleOffline_def addToast_def)

lemma completeSale_offline_lost:
  "user s = Some uid \<Longrightarrow> isOffline s \<Longrightarrow> \<not> storageAvailable s \<Longrightarrow>
   completeSale env pm now s =
     (s\<lparr>completedBill := Some (makeBill pm now uid s),
        dialogs := \<lparr>payment = False, success = True, history = False\<rparr>\<rparr>,
      Rejected StorageFailure)"
  by (simp add: completeSale_def startCheckout_def Let_def showSuccess_def saveSaleOffline_def)

lemma completeSale_online_failed:
  "user s = Some uid \<Longrightarrow> \<not> isOffline s \<Longrightarrow>
   insertError env (length (commitCalls s)) = Some msg \<Longrightarrow>
   completeSale env pm now s =
     (s\<lparr>completedBill := Some (makeBill pm now uid s),
        commitCalls := commitCalls s @ [(paymentBillId s, False)],
        toasts := toasts s @ [TransactionFailedToast (''Transaction failed: '' @ msg)],
        dialogs := (dialogs s)\<lparr>success := False\<rparr>\<rparr>, Resolved)"
  by (simp add: completeSale_def startCheckout_def Let_def showSuccess_def addToast_def processSaleMutation_fail
      makeBill_def)

lemma completeSale_online_placed:
  "user s = Some uid \<Longrightarrow> \<not> isOffline s \<Longrightarrow>
   insertError env (length (commitCalls s)) = None \<Longrightarrow>
   completeSale env pm now s =
     (s\<lparr>completedBill := Some (makeBill pm now uid s),
        dialogs := \<lparr>payment = False, success = True, history = False\<rparr>,
        sales := sales s @ [saleRow (makeBill pm now uid s)],
        commitCalls := commitCalls s @ [(paymentBillId s, True)],
        stockCalls := stockCalls s @
          stockLog env (length (stockCalls s)) (map billItem (cart s)),
        console := console s @
          stockWarnings env (length (stockCalls s)) (map billItem (cart s))\<rparr>, Resolved)"
  by (simp add: completeSale_def startCheckout_def Let_def showSuccess_def processSaleMutation_ok makeBill_def)

lemma completeSale_cases [case_names no_user saved lost failed placed]:
  assumes "user s = None \<Longrightarrow> P"
    and "\<And>uid. user s = Some uid \<Longrightarrow> isOffline s \<Longrightarrow> storageAvailable s \<Longrightarrow> P"
    and "\<And>uid. user s = Some uid \<Longrightarrow> isOffline s \<Longrightarrow> \<not> storageAvailable s \<Longrightarrow> P"
    and "\<And>uid msg. user s = Some uid \<Longrightarrow> \<not> isOffline s \<Longrightarrow>
           insertError env (length (commitCalls s)) = Some msg \<Longrightarrow> P"
    and "\<And>uid. user s = Some uid \<Longrightarrow> \<not> isOffline s \<Longrightarrow>
           insertError env (length (commitCalls s)) = None \<Longrightarrow> P"
  shows P
  using assms by (cases "user s"; cases "isOffline s"; cases "storageAvailable s";
      cases "insertError env (length (commitCalls s))") auto

lemma checkout_fields:
  "tasks (checkout pm now s) = tasks s" "isSyncing (checkout pm now s) = isSyncing s"
  "commitCalls (checkout pm now s) = commitCalls s" "store (checkout pm now s) = store s"
  "cart (checkout pm now s) = cart s" "paymentBillId (checkout pm now s) = paymentBillId s"
  by (simp_all add: checkout_def startCheckout_def showSuccess_def Let_def split: option.splits)

lemma settle_save_fields:
  assumes "length (checkouts s) \<le> i \<or> isSave (checkouts s ! i)"
  shows "tasks (settle env i s) = tasks s" and "isSyncing (settle env i s) = isSyncing s"
    and "commitCalls (settle env i s) = commitCalls s"
proof -
  have "tasks (settle env i s) = tasks s \<and> isSyncing (settle env i s) = isSyncing s \<and>
        commitCalls (settle env i s) = commitCalls s"
  proof (cases "i < length (checkouts s)")
    case False
    then show ?thesis by (simp add: settle_def)
  next
    case True
    with assms obtain b where "checkouts s ! i = AwaitSave b"
      by (cases "checkouts s ! i") auto
    with True show ?thesis
      by (simp add: settle_def Let_def saveSaleOffline_def addToast_def)
  qed
  then show "tasks (settle env i s) = tasks s" and "isSyncing (settle env i s) = isSyncing s"
    and "commitCalls (settle env i s) = commitCalls s" by simp_all
qed

lemma startNewSale_fields:
  "tasks (startNewSale s) = tasks s" "isSyncing (startNewSale s) = isSyncing s"
  "commitCalls (startNewSale s) = commitCalls s" "store (startNewSale s) = store s"
  by (simp_all add: startNewSale_def resetSale_def)

lemma resume_snapshot:
  assumes "tasks s = [AwaitSnapshot]"
  shows "commitCalls (resume env 0 s) = commitCalls s"
    and "store (resume env 0 s) = store s"
    and "storageAvailable (resume env 0 s) = storageAvailable s"
    and "readCalls (resume env 0 s) = Suc (readCalls s)"
    and "pendingSaleCount (resume env 0 s) = length (getOfflineSales s)"
    and "getOfflineSales s = [] \<Longrightarrow> tasks (resume env 0 s) = [] \<and> \<not> isSyncing (resume env 0 s)"
    and "getOfflineSales s = b # rest \<Longrightarrow>
           tasks (resume env 0 s) = [AwaitCommit b rest 0] \<and>
           isSyncing (resume env 0 s) = isSyncing s"
  using assms
  by (simp_all add: resume_def Let_def addToast_def split_beta nextIteration_fields
      nextIteration_task)

lemma resume_commit:
  assumes "tasks s = [AwaitCommit b rest c]"
  shows "commitCalls (resume env 0 s) =
           commitCalls s @ [(billId b, insertError env (length (commitCalls s)) = None)]"
    and "store (resume env 0 s) = store s"
    and "storageAvailable (resume env 0 s) = storageAvailable s"
    and "readCalls (resume env 0 s) = readCalls s"
    and "isSyncing (resume env 0 s) = isSyncing s"
    and "tasks (resume env 0 s) =
           [if insertError env (length (commitCalls s)) = None then AwaitDelete b rest c
            else (case rest of [] \<Rightarrow> AwaitRequery | b' # r \<Rightarrow> AwaitCommit b' r c)]"
  using assms
  by (cases "insertError env (length (commitCalls s))";
      simp add: resume_def processSaleMutation_ok processSaleMutation_fail split_beta
        nextIteration_fields nextIteration_task logSyncFailure_def)+

lemma resume_delete:
  assumes "tasks s = [AwaitDelete b rest c]"
  shows "commitCalls (resume env 0 s) = commitCalls s"
    and "store (resume env 0 s) =
           (if storageAvailable s then filter (\<lambda>x. billId x \<noteq> billId b) (store s) else store s)"
    and "deleteCalls (resume env 0 s) = deleteCalls s @ [billId b]"
    and "storageAvailable (resume env 0 s) = storageAvailable s"
    and "readCalls (resume env 0 s) = readCalls s"
    and "isSyncing (resume env 0 s) = isSyncing s"
    and "tasks (resume env 0 s) =
           [case rest of [] \<Rightarrow> AwaitRequery | b' # r \<Rightarrow> AwaitCommit b' r (Suc c)]"
  using assms
  by (simp_all add: resume_def split_beta nextIteration_state nextIteration_task
      deleteSyncedSale_def announce_def addToast_def)

lemma resume_requery:
  assumes "tasks s = [AwaitRequery]"
  shows "commitCalls (resume env 0 s) = commitCalls s"
    and "store (resume env 0 s) = store s"
    and "storageAvailable (resume env 0 s) = storageAvailable s"
    and "readCalls (resume env 0 s) = Suc (readCalls s)"
    and "pendingSaleCount (resume env 0 s) = length (getOfflineSales s)"
    and "tasks (resume env 0 s) = []" and "\<not> isSyncing (resume env 0 s)"
  using assms by (simp_all add: resume_def requery_def)

lemma resume_out_of_range: "length (tasks s) \<le> i \<Longrightarrow> resume env i s = s"
  by (simp add: resume_def)


lemma inLoop_cong:
  assumes "inLoop pre snap s"
    and "tasks s' = tasks s" "isSyncing s' = isSyncing s" "commitCalls s' = commitCalls s"
  shows "inLoop pre snap s'"
  using assms by (simp add: inLoop_def oneTask_def)

lemma updateOnlineStatus_busy:
  assumes "b \<longrightarrow> seenSyncing s"
  shows "tasks (updateOnlineStatus b s) = tasks s"
    and "isSyncing (updateOnlineStatus b s) = isSyncing s"
    and "commitCalls (updateOnlineStatus b s) = commitCalls s"
    and "store (updateOnlineStatus b s) = store s"
  using assms by (simp_all add: updateOnlineStatus_def startSync_def addToast_def)

lemma inLoop_resume:
  assumes inv: "inLoop pre snap s" and busy: "isSyncing s"
  shows "inLoop pre snap (resume env i s)"
proof -
  from inv busy obtain t new where t: "tasks s = [t]" "t \<noteq> AwaitSnapshot"
    and new: "commitCalls s = pre @ new"
      "map fst new @ map billId (pendingOf t) = map billId snap"
    by (auto simp: inLoop_def oneTask_def)
  show ?thesis
  proof (cases i)
    case (Suc j)
    then have "resume env i s = s" using t by (simp add: resume_out_of_range)
    then show ?thesis using inv by simp
  next
    case 0
    show ?thesis
    proof (cases t)
      case AwaitSnapshot
      with t show ?thesis by simp
    next
      case (AwaitCommit b rest c)
      with t have ts: "tasks s = [AwaitCommit b rest c]" by simp
      let ?ok = "insertError env (length (commitCalls s)) = None"
      have "commitCalls (resume env 0 s) = pre @ (new @ [(billId b, ?ok)])"
        by (simp add: resume_commit(1) [OF ts] new)
      moreover have "map fst (new @ [(billId b, ?ok)]) @
          map billId (concat (map pendingOf (tasks (resume env 0 s)))) = map billId snap"
      proof (cases rest)
        case Nil
        with new(2) AwaitCommit show ?thesis by (simp add: resume_commit(6) [OF ts])
      next
        case (Cons b' r)
        with new(2) AwaitCommit show ?thesis by (simp add: resume_commit(6) [OF ts])
      qed
      moreover have "oneTask (resume env 0 s)" "AwaitSnapshot \<notin> set (tasks (resume env 0 s))"
        using busy by (simp_all add: oneTask_def resume_commit(5,6) [OF ts] split: list.splits)
      ultimately show ?thesis unfolding 0 inLoop_def by blast
    next
      case (AwaitDelete b rest c)
      with t have ts: "tasks s = [AwaitDelete b rest c]" by simp
      have "commitCalls (resume env 0 s) = pre @ new"
        by (simp add: resume_delete(1) [OF ts] new)
      moreover have "map fst new @
          map billId (concat (map pendingOf (tasks (resume env 0 s)))) = map billId snap"
      proof (cases rest)
        case Nil
        with new(2) AwaitDelete show ?thesis by (simp add: resume_delete(7) [OF ts])
      next
        case (Cons b' r)
        with new(2) AwaitDelete show ?thesis by (simp add: resume_delete(7) [OF ts])
      qed
      moreover have "oneTask (resume env 0 s)" "AwaitSnapshot \<notin> set (tasks (resume env 0 s))"
        using busy by (simp_all add: oneTask_def resume_delete(6,7) [OF ts] split: list.splits)
      ultimately show ?thesis unfolding 0 inLoop_def by blast
    next
      case AwaitRequery
      with t have ts: "tasks s = [AwaitRequery]" by simp
      have "commitCalls (resume env 0 s) = pre @ new"
        by (simp add: resume_requery(1) [OF ts] new)
      moreover have "map fst new @
          map billId (concat (map pendingOf (tasks (resume env 0 s)))) = map billId snap"
        using new(2) AwaitRequery by (simp add: resume_requery(6) [OF ts])
      moreover have "oneTask (resume env 0 s)" "AwaitSnapshot \<notin> set (tasks (resume env 0 s))"
        by (simp_all add: oneTask_def resume_requery(6,7) [OF ts])
      ultimately show ?thesis unfolding 0 inLoop_def by blast
    qed
  qed
qed

lemma inLoop_step:
  assumes inv: "inLoop pre snap s" and busy: "isSyncing s"
    and adm: "case e of
                Settle i \<Rightarrow> length (checkouts s) \<le> i \<or> isSave (checkouts s ! i)
              | Trigger \<Rightarrow> seenSyncing s
              | OnlineEvent \<Rightarrow> seenSyncing s
              | _ \<Rightarrow> True"
  shows "inLoop pre snap (step env e s)"
proof (cases e)
  case Trigger
  with adm have "seenSyncing s" by simp
  then show ?thesis using inv Trigger by (simp add: startSync_busy)
next
  case (Resume i)
  then show ?thesis using inLoop_resume [OF inv busy] by simp
next
  case Render
  show ?thesis unfolding Render step.simps
    by (rule inLoop_cong [OF inv]) (simp_all add: render_def)
next
  case OnlineEvent
  with adm have seen: "True \<longrightarrow> seenSyncing s" by simp
  show ?thesis unfolding OnlineEvent step.simps
    by (rule inLoop_cong [OF inv]) (simp_all add: updateOnlineStatus_busy [OF seen])
next
  case OfflineEvent
  have seen: "False \<longrightarrow> seenSyncing s" by simp
  show ?thesis unfolding OfflineEvent step.simps
    by (rule inLoop_cong [OF inv]) (simp_all add: updateOnlineStatus_busy [OF seen])
next
  case (Proceed now)
  show ?thesis unfolding Proceed step.simps
    by (rule inLoop_cong [OF inv]) (simp_all add: proceedToPayment_fields)
next
  case (Checkout pm now)
  show ?thesis unfolding Checkout step.simps
    by (rule inLoop_cong [OF inv]) (simp_all add: checkout_fields)
next
  case (Settle i)
  with adm have loc: "length (checkouts s) \<le> i \<or> isSave (checkouts s ! i)" by simp
  show ?thesis unfolding Settle step.simps
    by (rule inLoop_cong [OF inv]) (simp_all add: settle_save_fields [OF loc])
next
  case StartNewSale
  show ?thesis unfolding StartNewSale step.simps
    by (rule inLoop_cong [OF inv]) (simp_all add: startNewSale_fields)
next
  case (AuthStateChange u)
  show ?thesis unfolding AuthStateChange step.simps
    by (rule inLoop_cong [OF inv]) (simp_all add: onAuthStateChange_def)
qed

lemma inLoop_run:
  "inLoop pre snap s \<Longrightarrow> duringPass env evs s \<Longrightarrow> inLoop pre snap (run env evs s)"
proof (induction evs arbitrary: s)
  case Nil
  then show ?case by simp
next
  case (Cons e es)
  from Cons.prems(2) have busy: "isSyncing s"
    and adm: "case e of
                Settle i \<Rightarrow> length (checkouts s) \<le> i \<or> isSave (checkouts s ! i)
              | Trigger \<Rightarrow> seenSyncing s
              | OnlineEvent \<Rightarrow> seenSyncing s
              | _ \<Rightarrow> True"
    and rest: "duringPass env es (step env e s)"
    by simp_all
  from Cons.IH [OF inLoop_step [OF Cons.prems(1) busy adm] rest] show ?case by simp
qed


lemmas eval_defs = resume_def startSync_def updateOnlineStatus_def addToast_def Let_def
  getOfflineSales_def processSaleMutation_def initialState_def remoteFailing_def exampleBill_def
  deleteSyncedSale_def logSyncFailure_def announce_def requery_def

lemma inLoop_after_snapshot:
  assumes t: "tasks s = [AwaitSnapshot]" and busy: "isSyncing s"
  shows "inLoop (commitCalls s) (getOfflineSales s) (resume env 0 s)"
proof (cases "getOfflineSales s")
  case Nil
  from resume_snapshot(6) [OF t Nil, where env = env] resume_snapshot(1) [OF t, where env = env]
  show ?thesis by (simp add: inLoop_def oneTask_def Nil)
next
  case (Cons b rest)
  from resume_snapshot(7) [OF t Cons, where env = env] resume_snapshot(1) [OF t, where env = env]
    busy
  show ?thesis by (simp add: inLoop_def oneTask_def Cons)
qed

lemma resumeTask_done:
  assumes "snd (resumeTask env t s) = None"
  shows "pendingSaleCount (fst (resumeTask env t s)) =
           length (getOfflineSales (fst (resumeTask env t s)))"
    and "\<not> isSyncing (fst (resumeTask env t s))"
proof -
  have "pendingSaleCount (fst (resumeTask env t s)) =
           length (getOfflineSales (fst (resumeTask env t s))) \<and>
        \<not> isSyncing (fst (resumeTask env t s))"
  proof (cases t)
    case AwaitSnapshot
    with assms show ?thesis
      by (cases "getOfflineSales s = []")
         (auto simp: Let_def split_beta getOfflineSales_def split: if_splits)
  next
    case (AwaitCommit b rest c)
    with assms show ?thesis by (simp add: split_beta split: sum.splits)
  next
    case (AwaitDelete b rest c)
    with assms show ?thesis by (simp add: split_beta)
  next
    case AwaitRequery
    then show ?thesis by (simp add: requery_def getOfflineSales_def)
  qed
  then show "pendingSaleCount (fst (resumeTask env t s)) =
           length (getOfflineSales (fst (resumeTask env t s)))"
    and "\<not> isSyncing (fst (resumeTask env t s))" by simp_all
qed

subsection \<open>A pass that nothing interrupts\<close>

text \<open>
  The two readings of \<open>syncOfflineSales\<close> agree: a trigger followed by the completion of
  each awaited operation in turn, with no other event in between, ends in the state that
  the function run as a whole gives.
\<close>

lemma run_resumes_Suc:
  "run env (replicate (Suc k) (Resume 0)) s = run env (replicate k (Resume 0)) (resume env 0 s)"
  by simp

lemma processSaleMutation_tasks:
  "processSaleMutation env b (u\<lparr>tasks := T\<rparr>) =
     (fst (processSaleMutation env b u), (snd (processSaleMutation env b u))\<lparr>tasks := T\<rparr>)"
  by (cases "insertError env (length (commitCalls u))")
     (simp_all add: processSaleMutation_ok processSaleMutation_fail)

lemma resume_commit_ok:
  assumes "insertError env (length (commitCalls u)) = None"
  shows "resume env 0 (u\<lparr>tasks := [AwaitCommit b rest c]\<rparr>) =
           (snd (processSaleMutation env b u))\<lparr>tasks := [AwaitDelete b rest c]\<rparr>"
  using assms by (simp add: resume_def processSaleMutation_tasks processSaleMutation_ok)

lemma resume_commit_fail:
  assumes "insertError env (length (commitCalls u)) = Some msg"
  shows "resume env 0 (u\<lparr>tasks := [AwaitCommit b rest c]\<rparr>) =
           (case rest of
              [] \<Rightarrow> (announce c (logSyncFailure b (''Transaction failed: '' @ msg)
                       (snd (processSaleMutation env b u))))\<lparr>tasks := [AwaitRequery]\<rparr>
            | b' # r \<Rightarrow> (logSyncFailure b (''Transaction failed: '' @ msg)
                       (snd (processSaleMutation env b u)))\<lparr>tasks := [AwaitCommit b' r c]\<rparr>)"
  using assms
  by (cases rest)
     (simp_all add: resume_def processSaleMutation_tasks processSaleMutation_fail
        logSyncFailure_def announce_def addToast_def)

lemma resume_delete_next:
  "resume env 0 (u\<lparr>tasks := [AwaitDelete b rest c]\<rparr>) =
           (case rest of
              [] \<Rightarrow> (announce (Suc c) (deleteSyncedSale (billId b) u))\<lparr>tasks := [AwaitRequery]\<rparr>
            | b' # r \<Rightarrow> (deleteSyncedSale (billId b) u)\<lparr>tasks := [AwaitCommit b' r (Suc c)]\<rparr>)"
  by (cases rest)
     (simp_all add: resume_def deleteSyncedSale_def announce_def addToast_def)

lemma resume_requery_last:
  "resume env 0 (u\<lparr>tasks := [AwaitRequery]\<rparr>) = (requery u)\<lparr>tasks := []\<rparr>"
  by (simp add: resume_def requery_def getOfflineSales_def)

lemma syncLoop_ok_snd:
  "insertError env (length (commitCalls u)) = None \<Longrightarrow>
   syncLoop env (b # rest) c u =
     syncLoop env rest (Suc c) (deleteSyncedSale (billId b) (snd (processSaleMutation env b u)))"
  by (simp add: syncLoop.simps(2) processSaleMutation_ok)

lemma syncLoop_fail_snd:
  "insertError env (length (commitCalls u)) = Some msg \<Longrightarrow>
   syncLoop env (b # rest) c u =
     syncLoop env rest c
       (logSyncFailure b (''Transaction failed: '' @ msg) (snd (processSaleMutation env b u)))"
  by (simp add: syncLoop.simps(2) processSaleMutation_fail)

lemma loop_uninterrupted:
  "\<exists>k. run env (replicate k (Resume 0)) (u\<lparr>tasks := [AwaitCommit b rest c]\<rparr>) =
     (requery (announce (snd (syncLoop env (b # rest) c u)) (fst (syncLoop env (b # rest) c u))))
       \<lparr>tasks := []\<rparr>"
proof (induction rest arbitrary: b c u)
  case Nil
  show ?case
  proof (cases "insertError env (length (commitCalls u))")
    case None
    have "run env (replicate (Suc (Suc (Suc 0))) (Resume 0)) (u\<lparr>tasks := [AwaitCommit b [] c]\<rparr>) =
      (requery (announce (snd (syncLoop env [b] c u)) (fst (syncLoop env [b] c u))))\<lparr>tasks := []\<rparr>"
      by (simp add: resume_commit_ok [OF None] resume_delete_next resume_requery_last
          syncLoop_ok_snd [OF None])
    then show ?thesis by blast
  next
    case (Some msg)
    have "run env (replicate (Suc (Suc 0)) (Resume 0)) (u\<lparr>tasks := [AwaitCommit b [] c]\<rparr>) =
      (requery (announce (snd (syncLoop env [b] c u)) (fst (syncLoop env [b] c u))))\<lparr>tasks := []\<rparr>"
      by (simp add: resume_commit_fail [OF Some] resume_requery_last
          syncLoop_fail_snd [OF Some])
    then show ?thesis by blast
  qed
next
  case (Cons b' r)
  show ?case
  proof (cases "insertError env (length (commitCalls u))")
    case None
    let ?d = "deleteSyncedSale (billId b) (snd (processSaleMutation env b u))"
    from Cons.IH [of b' "Suc c" ?d] obtain k where
      k: "run env (replicate k (Resume 0)) (?d\<lparr>tasks := [AwaitCommit b' r (Suc c)]\<rparr>) =
        (requery (announce (snd (syncLoop env (b' # r) (Suc c) ?d))
           (fst (syncLoop env (b' # r) (Suc c) ?d))))\<lparr>tasks := []\<rparr>"
      by blast
    have "run env (replicate (Suc (Suc k)) (Resume 0)) (u\<lparr>tasks := [AwaitCommit b (b' # r) c]\<rparr>) =
      (requery (announce (snd (syncLoop env (b # b' # r) c u))
         (fst (syncLoop env (b # b' # r) c u))))\<lparr>tasks := []\<rparr>"
      unfolding run_resumes_Suc resume_commit_ok [OF None] resume_delete_next
      by (simp only: k syncLoop_ok_snd [OF None] list.case)
    then show ?thesis by blast
  next
    case (Some msg)
    let ?d = "logSyncFailure b (''Transaction failed: '' @ msg) (snd (processSaleMutation env b u))"
    from Cons.IH [of b' c ?d] obtain k where
      k: "run env (replicate k (Resume 0)) (?d\<lparr>tasks := [AwaitCommit b' r c]\<rparr>) =
        (requery (announce (snd (syncLoop env (b' # r) c ?d))
           (fst (syncLoop env (b' # r) c ?d))))\<lparr>tasks := []\<rparr>"
      by blast
    have "run env (replicate (Suc k) (Resume 0)) (u\<lparr>tasks := [AwaitCommit b (b' # r) c]\<rparr>) =
      (requery (announce (snd (syncLoop env (b # b' # r) c u))
         (fst (syncLoop env (b # b' # r) c u))))\<lparr>tasks := []\<rparr>"
      unfolding run_resumes_Suc resume_commit_fail [OF Some]
      by (simp only: k syncLoop_fail_snd [OF Some] list.case)
    then show ?thesis by blast
  qed
qed


lemma tasks_already: "tasks x = T \<Longrightarrow> x\<lparr>tasks := T\<rparr> = x"
  by auto

lemma uninterrupted_pass:
  assumes "tasks s = []"
  shows "\<exists>k. run env (Trigger # replicate k (Resume 0)) s = syncOfflineSales env s"
proof (cases "seenSyncing s \<or> seenUser s = None")
  case True
  then have "run env (Trigger # replicate 0 (Resume 0)) s = syncOfflineSales env s"
    by (simp add: startSync_def syncOfflineSales_def)
  then show ?thesis by blast
next
  case False
  with assms have start: "startSync s = s\<lparr>isSyncing := True, tasks := [AwaitSnapshot]\<rparr>"
    by (auto simp: startSync_def)
  show ?thesis
  proof (cases "getOfflineSales s")
    case Nil
    have "run env (Trigger # replicate (Suc 0) (Resume 0)) s = syncOfflineSales env s"
      by (rule Sys.equality)
         (use False Nil assms in
           \<open>auto simp: start resume_def syncOfflineSales_def Let_def getOfflineSales_def\<close>)
    then show ?thesis by blast
  next
    case (Cons b rest)
    let ?u = "addToast (SyncingToast (length (b # rest)))
                (s\<lparr>isSyncing := True, readCalls := Suc (readCalls s),
                   pendingSaleCount := length (b # rest)\<rparr>)"
    let ?r = "requery (announce (snd (syncLoop env (b # rest) 0 ?u))
                (fst (syncLoop env (b # rest) 0 ?u)))"
    have g: "getOfflineSales (s\<lparr>isSyncing := True, tasks := [AwaitSnapshot]\<rparr>) = b # rest"
      using Cons by (auto simp: getOfflineSales_def split: if_splits)
    have first: "resume env 0 (startSync s) = ?u\<lparr>tasks := [AwaitCommit b rest 0]\<rparr>"
      by (simp add: start resume_def Let_def addToast_def g)
    from loop_uninterrupted [where env = env and u = ?u and b = b and rest = rest and c = 0]
    obtain k where
      k: "run env (replicate k (Resume 0)) (?u\<lparr>tasks := [AwaitCommit b rest 0]\<rparr>) =
            ?r\<lparr>tasks := []\<rparr>"
      by blast
    have "tasks ?r = []"
      by (simp add: requery_fields announce_fields syncLoop_frame addToast_def assms)
    then have "?r\<lparr>tasks := []\<rparr> = ?r" by (rule tasks_already)
    moreover have "syncOfflineSales env s = ?r"
      using False by (auto simp: syncOfflineSales_def Let_def split_beta Cons)
    ultimately have "run env (Trigger # replicate (Suc k) (Resume 0)) s = syncOfflineSales env s"
      using k first by simp
    then show ?thesis by blast
  qed
qed

section \<open>Claims about a pass that other events interleave with\<close>

text \<open>
  Claim C2, evaluated on the code. The till is online with a user and one buffered sale.
  An \<open>online\<close> event starts a pass and sets the flag. A second \<open>online\<close> event (after an
  \<open>offline\<close> one) that arrives before the component has rendered again runs the same
  callback, which still holds \<open>isSyncing = false\<close>: a second pass starts while the first is
  in flight. Both passes read the same record; it is committed twice, its stock is
  decremented twice, and two \<open>Sync Complete\<close> toasts count it. Had the component rendered
  in between, the second event would have started nothing.
\<close>

theorem two_online_events_two_passes:
  "(let s0 = initialState True (Some ''u1'') [exampleBill ''INV-1''];
        env = remoteFailing [] [];
        s = run env [OnlineEvent, OfflineEvent, OnlineEvent, Resume 0, Resume 1, Resume 0, Resume 1,
                     Resume 0, Resume 1, Resume 0, Resume 0] s0
    in isSyncing (run env [OnlineEvent] s0) \<and>
       tasks (run env [OnlineEvent] s0) = [AwaitSnapshot] \<and>
       tasks (run env [OnlineEvent, OfflineEvent, OnlineEvent] s0) = [AwaitSnapshot, AwaitSnapshot] \<and>
       tasks (run env [OnlineEvent, Render, OfflineEvent, OnlineEvent] s0) = [AwaitSnapshot] \<and>
       commitCalls s = [(''INV-1'', True), (''INV-1'', True)] \<and>
       map (\<lambda>r. billId (bill_data r)) (sales s) = [''INV-1'', ''INV-1''] \<and>
       stockCalls s = [(''rice'', 2, True), (''rice'', 2, True)] \<and>
       syncCompleteCounts (toasts s) = [1, 1] \<and>
       tasks s = [] \<and> store s = [])"
proof -
  let ?init = "initialState True (Some ''u1'') [exampleBill ''INV-1'']"
  let ?env = "remoteFailing [] []"
  let ?final = "run ?env [OnlineEvent, OfflineEvent, OnlineEvent, Resume 0, Resume 1, Resume 0, Resume 1,
                     Resume 0, Resume 1, Resume 0, Resume 0] ?init"
  have 1: "isSyncing (run ?env [OnlineEvent] ?init)" by code_simp
  have 2: "tasks (run ?env [OnlineEvent] ?init) = [AwaitSnapshot]" by code_simp
  have 3: "tasks (run ?env [OnlineEvent, OfflineEvent, OnlineEvent] ?init) = [AwaitSnapshot, AwaitSnapshot]"
    by code_simp
  have 4: "tasks (run ?env [OnlineEvent, Render, OfflineEvent, OnlineEvent] ?init) = [AwaitSnapshot]"
    by code_simp
  have 5: "commitCalls ?final = [(''INV-1'', True), (''INV-1'', True)]" by code_simp
  have 6: "map (\<lambda>r. billId (bill_data r)) (sales ?final) = [''INV-1'', ''INV-1'']" by code_simp
  have 7: "stockCalls ?final = [(''rice'', 2, True), (''rice'', 2, True)]" by code_simp
  have 8: "syncCompleteCounts (toasts ?final) = [1, 1]" by code_simp
  have 9: "tasks ?final = []" "store ?final = []" by code_simp+
  show ?thesis unfolding Let_def by (intro conjI) (fact 1 2 3 4 5 6 7 8 9)+
qed

text \<open>
  Claim C4. A pass reads the buffer once when it starts. Whatever events happen while it is
  in flight (renders, triggers from a callback that holds the set flag, connectivity
  changes, checkouts that begin, offline checkouts whose save adds a new record), the
  bill ids it has attempted, followed by those it has still to attempt, are the bill ids of
  that snapshot in the buffer's order; when it ends it has attempted exactly the
  snapshot; an id outside the snapshot is never attempted. One commit is awaited at a
  time, and the step after a successful commit removes that one record from the buffer.
\<close>

theorem snapshot_in_order:
  assumes "tasks s = [AwaitSnapshot]" and "isSyncing s"
    and "duringPass env evs (resume env 0 s)"
  shows "let snap = getOfflineSales s;
             s' = run env evs (resume env 0 s);
             attempted = map fst (drop (length (commitCalls s)) (commitCalls s'))
         in readCalls (resume env 0 s) = Suc (readCalls s) \<and>
            attempted @ map billId (concat (map pendingOf (tasks s'))) = map billId snap \<and>
            (\<not> isSyncing s' \<longrightarrow> attempted = map billId snap) \<and>
            (\<forall>k. k \<notin> billId ` set snap \<longrightarrow> k \<notin> set attempted) \<and>
            (\<forall>b rest c. tasks s' = [AwaitCommit b rest c] \<longrightarrow>
               commitCalls (resume env 0 s') =
                 commitCalls s' @ [(billId b, insertError env (length (commitCalls s')) = None)] \<and>
               store (resume env 0 s') = store s' \<and>
               (insertError env (length (commitCalls s')) = None \<longrightarrow>
                  tasks (resume env 0 s') = [AwaitDelete b rest c])) \<and>
            (\<forall>b rest c. tasks s' = [AwaitDelete b rest c] \<and> storageAvailable s' \<longrightarrow>
               store (resume env 0 s') = filter (\<lambda>x. billId x \<noteq> billId b) (store s') \<and>
               commitCalls (resume env 0 s') = commitCalls s')"
proof -
  let ?snap = "getOfflineSales s"
  let ?s' = "run env evs (resume env 0 s)"
  let ?att = "map fst (drop (length (commitCalls s)) (commitCalls ?s'))"
  have "inLoop (commitCalls s) ?snap ?s'"
    by (rule inLoop_run [OF inLoop_after_snapshot [OF assms(1,2)] assms(3)])
  then obtain new where one: "oneTask ?s'" and new: "commitCalls ?s' = commitCalls s @ new"
    "map fst new @ map billId (concat (map pendingOf (tasks ?s'))) = map billId ?snap"
    unfolding inLoop_def by blast
  have att: "?att = map fst new" by (simp add: new(1))
  have 1: "?att @ map billId (concat (map pendingOf (tasks ?s'))) = map billId ?snap"
    by (simp add: att new(2))
  have 2: "?att = map billId ?snap" if "\<not> isSyncing ?s'"
  proof -
    from one that have "tasks ?s' = []" by (auto simp: oneTask_def)
    with 1 show ?thesis by simp
  qed
  have "set ?att \<subseteq> set (map billId ?snap)"
    unfolding 1 [symmetric] by simp
  then have 3: "k \<notin> set ?att" if "k \<notin> billId ` set ?snap" for k
    using that by auto
  have 4: "commitCalls (resume env 0 ?s') =
                 commitCalls ?s' @ [(billId b, insertError env (length (commitCalls ?s')) = None)] \<and>
               store (resume env 0 ?s') = store ?s' \<and>
               (insertError env (length (commitCalls ?s')) = None \<longrightarrow>
                  tasks (resume env 0 ?s') = [AwaitDelete b rest c])"
    if "tasks ?s' = [AwaitCommit b rest c]" for b rest c
    by (simp add: resume_commit [OF that])
  have 5: "store (resume env 0 ?s') = filter (\<lambda>x. billId x \<noteq> billId b) (store ?s') \<and>
               commitCalls (resume env 0 ?s') = commitCalls ?s'"
    if "tasks ?s' = [AwaitDelete b rest c] \<and> storageAvailable ?s'" for b rest c
    using that by (simp add: resume_delete)
  show ?thesis
    unfolding Let_def
    using resume_snapshot(4) [OF assms(1), where env = env] 1 2 3 4 5 by blast
qed

theorem snapshot_in_order_witness:
  "(let s = (initialState True (Some ''u1'') [exampleBill ''INV-1'', exampleBill ''INV-2''])
              \<lparr>isSyncing := True, tasks := [AwaitSnapshot],
               cart := [\<lparr>item_id = ''salt'', item_name = ''Salt'', category = ''grocery'',
                         quantity = 9, unit_price = 20, is_available = True,
                         cart_quantity = 1\<rparr>],
               paymentBillId := ''INV-9''\<rparr>;
        env = remoteFailing [0] [];
        evs = [OfflineEvent, Checkout cash 2000, Resume 0, Settle 0, Resume 0, Resume 0];
        s' = run env evs (resume env 0 s)
    in tasks s = [AwaitSnapshot] \<and> isSyncing s \<and> duringPass env evs (resume env 0 s) \<and>
       map billId (getOfflineSales s) = [''INV-1'', ''INV-2''] \<and>
       map billId (store s') = [''INV-1'', ''INV-9''] \<and>
       commitCalls s' = [(''INV-1'', False), (''INV-2'', True)] \<and>
       tasks s' = [AwaitRequery] \<and>
       map fst (drop (length (commitCalls s)) (commitCalls s')) @
         map billId (concat (map pendingOf (tasks s'))) = map billId (getOfflineSales s) \<and>
       ''INV-9'' \<notin> set (map fst (drop (length (commitCalls s)) (commitCalls s'))))"
proof -
  let ?init = "(initialState True (Some ''u1'') [exampleBill ''INV-1'', exampleBill ''INV-2''])
              \<lparr>isSyncing := True, tasks := [AwaitSnapshot],
               cart := [\<lparr>item_id = ''salt'', item_name = ''Salt'', category = ''grocery'',
                         quantity = 9, unit_price = 20, is_available = True,
                         cart_quantity = 1\<rparr>],
               paymentBillId := ''INV-9''\<rparr>"
  let ?env = "remoteFailing [0] []"
  let ?evs = "[OfflineEvent, Checkout cash 2000, Resume 0, Settle 0, Resume 0, Resume 0]"
  have h: "tasks ?init = [AwaitSnapshot]" "isSyncing ?init"
    by (simp_all add: initialState_def)
  have d: "duringPass ?env ?evs (resume ?env 0 ?init)"
    by (simp add: eval_defs checkout_def settle_def startCheckout_def showSuccess_def saveSaleOffline_def)
  have ev: "map billId (getOfflineSales ?init) = [''INV-1'', ''INV-2'']"
    "map billId (store (run ?env ?evs (resume ?env 0 ?init))) = [''INV-1'', ''INV-9'']"
    "commitCalls (run ?env ?evs (resume ?env 0 ?init)) = [(''INV-1'', False), (''INV-2'', True)]"
    "tasks (run ?env ?evs (resume ?env 0 ?init)) = [AwaitRequery]"
    by (simp_all add: eval_defs checkout_def settle_def startCheckout_def showSuccess_def saveSaleOffline_def makeBill_def)
  note t = snapshot_in_order [OF h d]
  have new: "''INV-9'' \<notin> billId ` set (getOfflineSales ?init)"
    by (simp add: eval_defs)
  show ?thesis
    unfolding Let_def using h d ev t [unfolded Let_def] new by blast
qed

text \<open>
  Claim C8. Whenever a step ends a pass, the pending count it leaves is the length of the
  buffer as read at that moment, so records saved while the pass was in flight are
  counted; the same holds for a pass run without interruption.
\<close>

theorem pending_count_requeried:
  "(i < length (tasks s) \<and> length (tasks (resume env i s)) < length (tasks s) \<longrightarrow>
      pendingSaleCount (resume env i s) = length (getOfflineSales (resume env i s)) \<and>
      \<not> isSyncing (resume env i s)) \<and>
   (\<not> seenSyncing s \<and> seenUser s \<noteq> None \<longrightarrow>
      pendingSaleCount (syncOfflineSales env s) = length (getOfflineSales (syncOfflineSales env s)) \<and>
      \<not> isSyncing (syncOfflineSales env s))"
proof (intro conjI impI)
  assume a: "i < length (tasks s) \<and> length (tasks (resume env i s)) < length (tasks s)"
  let ?r = "resumeTask env (tasks s ! i) s"
  have fin: "snd ?r = None"
  proof (rule ccontr)
    assume "snd ?r \<noteq> None"
    then obtain t' where "snd ?r = Some t'" by blast
    with a have "length (tasks (resume env i s)) = length (tasks s)"
      by (simp add: resume_def split_beta resumeTask_tasks)
    with a show False by simp
  qed
  with a have eq: "resume env i s = (fst ?r)\<lparr>tasks := take i (tasks (fst ?r)) @ drop (Suc i) (tasks (fst ?r))\<rparr>"
    by (simp add: resume_def split_beta)
  show "pendingSaleCount (resume env i s) = length (getOfflineSales (resume env i s))"
    using resumeTask_done(1) [OF fin] by (simp add: eq getOfflineSales_def)
  show "\<not> isSyncing (resume env i s)"
    using resumeTask_done(2) [OF fin] by (simp add: eq)
next
  assume a: "\<not> seenSyncing s \<and> seenUser s \<noteq> None"
  then show "pendingSaleCount (syncOfflineSales env s) =
      length (getOfflineSales (syncOfflineSales env s))"
    by (auto simp: syncOfflineSales_def Let_def split_beta requery_def getOfflineSales_def)
  from a show "\<not> isSyncing (syncOfflineSales env s)"
    by (auto simp: syncOfflineSales_def Let_def split_beta requery_def)
qed

theorem pending_count_requeried_witness:
  "(let s0 = (initialState True (Some ''u1'') [exampleBill ''INV-1''])
              \<lparr>isSyncing := True, tasks := [AwaitSnapshot],
               cart := [\<lparr>item_id = ''salt'', item_name = ''Salt'', category = ''grocery'',
                         quantity = 9, unit_price = 20, is_available = True,
                         cart_quantity = 1\<rparr>],
               paymentBillId := ''INV-9''\<rparr>;
        env = remoteFailing [] [];
        s = run env [Resume 0, OfflineEvent, Checkout cash 2000, Resume 0, Settle 0, Resume 0] s0
    in tasks s = [AwaitRequery] \<and> 0 < length (tasks s) \<and>
       length (tasks (resume env 0 s)) < length (tasks s) \<and>
       map billId (store (resume env 0 s)) = [''INV-9''] \<and>
       deleteCalls (resume env 0 s) = [''INV-1''] \<and>
       pendingSaleCount (resume env 0 s) = 1 \<and>
       pendingSaleCount (resume env 0 s) = length (getOfflineSales (resume env 0 s)) \<and>
       \<not> isSyncing (resume env 0 s))"
proof -
  let ?init = "(initialState True (Some ''u1'') [exampleBill ''INV-1''])
              \<lparr>isSyncing := True, tasks := [AwaitSnapshot],
               cart := [\<lparr>item_id = ''salt'', item_name = ''Salt'', category = ''grocery'',
                         quantity = 9, unit_price = 20, is_available = True,
                         cart_quantity = 1\<rparr>],
               paymentBillId := ''INV-9''\<rparr>"
  let ?env = "remoteFailing [] []"
  let ?mid = "run ?env [Resume 0, OfflineEvent, Checkout cash 2000, Resume 0, Settle 0, Resume 0] ?init"
  have ev: "tasks ?mid = [AwaitRequery]"
    "map billId (store (resume ?env 0 ?mid)) = [''INV-9'']"
    "deleteCalls (resume ?env 0 ?mid) = [''INV-1'']"
    "pendingSaleCount (resume ?env 0 ?mid) = 1"
    "tasks (resume ?env 0 ?mid) = []"
    by (simp_all add: eval_defs checkout_def settle_def startCheckout_def showSuccess_def saveSaleOffline_def makeBill_def)
  have h: "0 < length (tasks ?mid)"
    "length (tasks (resume ?env 0 ?mid)) < length (tasks ?mid)"
    unfolding ev(1,5) by simp_all
  from pending_count_requeried [of 0 ?mid ?env] h
  have t: "pendingSaleCount (resume ?env 0 ?mid) = length (getOfflineSales (resume ?env 0 ?mid))"
    "\<not> isSyncing (resume ?env 0 ?mid)"
    by blast+
  show ?thesis
    unfolding Let_def by (intro conjI) (fact ev h t)+
qed

section \<open>Properties of the checkout\<close>

lemma digitChar_inj: "d < 10 \<Longrightarrow> e < 10 \<Longrightarrow> digitChar d = digitChar e \<Longrightarrow> d = e"
  unfolding digitChar_def
  by (subst (asm) nth_eq_iff_index_eq) simp_all

lemma showNat_nonempty: "showNat n \<noteq> []"
  by (subst showNat.simps) simp

lemma showNat_inj: "showNat n = showNat m \<Longrightarrow> n = m"
proof (induction n arbitrary: m rule: showNat.induct)
  case (1 n)
  show ?case
  proof (cases "n < 10")
    case True
    then have n: "showNat n = [digitChar n]" by (subst showNat.simps) simp
    show ?thesis
    proof (cases "m < 10")
      case m: True
      then have "showNat m = [digitChar m]" by (subst showNat.simps) simp
      with n "1.prems" True m show ?thesis by (simp add: digitChar_inj)
    next
      case False
      then have "showNat m = showNat (m div 10) @ [digitChar (m mod 10)]"
        by (subst showNat.simps) simp
      with n "1.prems" showNat_nonempty [of "m div 10"] show ?thesis by simp
    qed
  next
    case False
    then have n: "showNat n = showNat (n div 10) @ [digitChar (n mod 10)]"
      by (subst showNat.simps) simp
    show ?thesis
    proof (cases "m < 10")
      case True
      then have "showNat m = [digitChar m]" by (subst showNat.simps) simp
      with n "1.prems" showNat_nonempty [of "n div 10"] show ?thesis by simp
    next
      case m: False
      then have "showNat m = showNat (m div 10) @ [digitChar (m mod 10)]"
        by (subst showNat.simps) simp
      with n "1.prems" have a: "showNat (n div 10) = showNat (m div 10)"
        and b: "digitChar (n mod 10) = digitChar (m mod 10)" by simp_all
      from "1.IH" [OF False a] have "n div 10 = m div 10" .
      moreover from b have "n mod 10 = m mod 10" by (intro digitChar_inj) simp_all
      ultimately show ?thesis by (metis div_mult_mod_eq)
    qed
  qed
qed

text \<open>
  The two readings of \<open>completeSale\<close> agree: the call up to its \<open>await\<close> followed at
  once by the answer it waits for ends in the state that the function run as a whole
  gives.
\<close>

lemma settleCheckout_checkouts:
  "settleCheckout env t (s\<lparr>checkouts := cs\<rparr>) =
     ((fst (settleCheckout env t s))\<lparr>checkouts := cs\<rparr>, snd (settleCheckout env t s))"
  by (cases t; cases "insertError env (length (commitCalls s))")
     (simp_all add: saveSaleOffline_def addToast_def processSaleMutation_ok
        processSaleMutation_fail)

lemma settleCheckout_keeps: "checkouts (fst (settleCheckout env t s)) = checkouts s"
  by (cases t; cases "insertError env (length (commitCalls s))")
     (simp_all add: saveSaleOffline_def addToast_def processSaleMutation_ok
        processSaleMutation_fail)

lemma startCheckout_keeps: "checkouts (fst (startCheckout pm now s)) = checkouts s"
  by (simp add: startCheckout_def showSuccess_def Let_def split: option.splits)

lemma checkouts_already: "checkouts x = T \<Longrightarrow> x\<lparr>checkouts := T\<rparr> = x"
  by simp

lemma uninterrupted_checkout:
  "run env [Checkout pm now, Settle (length (checkouts s))] s = fst (completeSale env pm now s)"
proof (cases "snd (startCheckout pm now s)")
  case None
  then show ?thesis
    by (simp add: checkout_def completeSale_def settle_def split_beta startCheckout_keeps)
next
  case (Some t)
  let ?s1 = "fst (startCheckout pm now s)"
  have k: "checkouts ?s1 = checkouts s" by (rule startCheckout_keeps)
  have c: "checkout pm now s = ?s1\<lparr>checkouts := checkouts s @ [t]\<rparr>"
    using Some by (simp add: checkout_def split_beta k)
  have "settle env (length (checkouts s)) (checkout pm now s) =
      (fst (settleCheckout env t ?s1))\<lparr>checkouts := checkouts s\<rparr>"
    unfolding c by (simp add: settle_def settleCheckout_checkouts)
  also have "\<dots> = fst (settleCheckout env t ?s1)"
    by (rule checkouts_already) (simp add: settleCheckout_keeps k)
  finally show ?thesis using Some by (simp add: completeSale_def split_beta)
qed

lemma completeSale_paymentBillId:
  "paymentBillId (fst (completeSale env pm now s)) = paymentBillId s"
  by (rule completeSale_cases [where s = s and env = env])
     (simp_all add: completeSale_no_user completeSale_offline_saved completeSale_offline_lost
        completeSale_online_failed completeSale_online_placed)

section \<open>Claims about the checkout\<close>

text \<open>
  What an online checkout whose insert fails has done once the failure has arrived, when
  nothing happened in between: the failure is shown in a \<open>Transaction Failed\<close> toast
  carrying the error message, the success dialog is closed, the payment dialog is as it
  was when the function was called, nothing was recorded remotely or in the buffer, and
  the cart, the customer, the notes and the bill id are unchanged.
\<close>

lemma completeSale_failure_outcome:
  assumes "user s = Some uid" and "\<not> isOffline s"
    and "insertError env (length (commitCalls s)) = Some msg"
  shows "let s' = fst (completeSale env pm now s) in
     snd (completeSale env pm now s) = Resolved \<and>
     toasts s' = toasts s @ [TransactionFailedToast (''Transaction failed: '' @ msg)] \<and>
     \<not> success (dialogs s') \<and> payment (dialogs s') = payment (dialogs s) \<and>
     sales s' = sales s \<and> stockCalls s' = stockCalls s \<and> store s' = store s \<and>
     pendingSaleCount s' = pendingSaleCount s \<and>
     cart s' = cart s \<and> customerInfo s' = customerInfo s \<and> saleNotes s' = saleNotes s \<and>
     paymentBillId s' = paymentBillId s \<and> user s' = user s \<and> isOffline s' = isOffline s \<and>
     makeBill pm now uid s' = makeBill pm now uid s"
  using assms by (simp add: completeSale_online_failed Let_def makeBill_def)

text \<open>
  Claim C6, evaluated on the code. An online till with a user, one item in the cart and
  the payment dialog open; the insert of the commit will fail. \<open>completeSale\<close> records
  the bill as completed and opens the dialog \<open>Transaction Successful!\<close> before it awaits
  the commit: while the commit is unanswered the sale is presented as placed, with no
  toast. When the failure arrives the toast is raised, the success dialog is closed and
  the payment dialog is open again over the unchanged cart. If the operator has pressed
  \<open>Start New Sale\<close> in the success dialog meanwhile, the cart and the customer are
  cleared; the failure then arrives for a sale that is in no cart, no buffer and no
  remote table.
\<close>

theorem success_shown_before_commit_fails:
  "(let s = proceedToPayment 2000 (tillWithCart True [saltItem]);
        env = remoteFailing [0] [];
        shown = step env (Checkout cash 2001) s;
        failed = step env (Settle 0) shown;
        lost = run env [Checkout cash 2001, Render, StartNewSale, Settle 0] s
    in user s = Some ''u1'' \<and> \<not> isOffline s \<and> cart s = [saltItem] \<and> payment (dialogs s) \<and>
       insertError env (length (commitCalls s)) = Some ''timeout'' \<and>
       success (dialogs shown) \<and> \<not> payment (dialogs shown) \<and>
       map_option billId (completedBill shown) = Some ''INV-2000'' \<and>
       toasts shown = [] \<and> commitCalls shown = [] \<and> length (checkouts shown) = 1 \<and>
       commitCalls failed = [(''INV-2000'', False)] \<and> sales failed = [] \<and>
       toasts failed = [TransactionFailedToast ''Transaction failed: timeout''] \<and>
       \<not> success (dialogs failed) \<and> payment (dialogs failed) \<and> cart failed = [saltItem] \<and>
       checkouts failed = [] \<and>
       cart lost = [] \<and> phone (customerInfo lost) = [] \<and> completedBill lost = None \<and>
       commitCalls lost = [(''INV-2000'', False)] \<and> sales lost = [] \<and> store lost = [] \<and>
       toasts lost = [TransactionFailedToast ''Transaction failed: timeout''] \<and>
       payment (dialogs lost) \<and> \<not> success (dialogs lost))"
  by (simp add: Let_def proceedToPayment_def tillWithCart_def initialState_def saltItem_def
      remoteFailing_def checkout_def settle_def startCheckout_def showSuccess_def makeBill_def
      processSaleMutation_def addToast_def startNewSale_def resetSale_def render_def
      showNat.simps digitChar_def)

text \<open>
  Claim C7, evaluated on the code. An offline checkout whose \<open>saveSaleOffline\<close> throws:
  the promise of \<open>completeSale\<close> rejects with the storage failure, which nothing catches;
  the page raises no toast and writes no console line; the success dialog opened before
  the save stays open and the bill stays recorded as completed; the buffer does not hold
  the record and the pending count is unchanged.
\<close>

theorem offline_save_failure_escapes:
  "snd (completeSale (remoteFailing [] []) cash 2001
          ((proceedToPayment 2000 (tillWithCart False [saltItem]))\<lparr>storageAvailable := False\<rparr>)) =
     Rejected StorageFailure \<and>
   toasts (fst (completeSale (remoteFailing [] []) cash 2001
          ((proceedToPayment 2000 (tillWithCart False [saltItem]))\<lparr>storageAvailable := False\<rparr>))) = [] \<and>
   console (fst (completeSale (remoteFailing [] []) cash 2001
          ((proceedToPayment 2000 (tillWithCart False [saltItem]))\<lparr>storageAvailable := False\<rparr>))) = [] \<and>
   success (dialogs (fst (completeSale (remoteFailing [] []) cash 2001
          ((proceedToPayment 2000 (tillWithCart False [saltItem]))\<lparr>storageAvailable := False\<rparr>)))) \<and>
   completedBill (fst (completeSale (remoteFailing [] []) cash 2001
          ((proceedToPayment 2000 (tillWithCart False [saltItem]))\<lparr>storageAvailable := False\<rparr>))) \<noteq> None \<and>
   store (fst (completeSale (remoteFailing [] []) cash 2001
          ((proceedToPayment 2000 (tillWithCart False [saltItem]))\<lparr>storageAvailable := False\<rparr>))) = [] \<and>
   pendingSaleCount (fst (completeSale (remoteFailing [] []) cash 2001
          ((proceedToPayment 2000 (tillWithCart False [saltItem]))\<lparr>storageAvailable := False\<rparr>))) = 0"
  by (simp add: completeSale_def startCheckout_def proceedToPayment_def tillWithCart_def initialState_def
      saltItem_def Let_def showSuccess_def saveSaleOffline_def)

text \<open>
  Claim C9 as stated fails: two different checkouts whose \<open>proceedToPayment\<close> reads the
  same clock value (two tills in the same millisecond, or a clock set back) are given the
  same bill id.
\<close>

theorem same_clock_same_billId:
  "tillWithCart True [saltItem] \<noteq> tillWithCart True [riceItem] \<and>
   paymentBillId (proceedToPayment 1700000000000 (tillWithCart True [saltItem])) =
   paymentBillId (proceedToPayment 1700000000000 (tillWithCart True [riceItem])) \<and>
   billId (makeBill cash 1700000000500 ''u1''
            (proceedToPayment 1700000000000 (tillWithCart True [saltItem]))) =
   billId (makeBill online 1700000000900 ''u1''
            (proceedToPayment 1700000000000 (tillWithCart True [riceItem])))"
proof -
  have "cart (tillWithCart True [saltItem]) \<noteq> cart (tillWithCart True [riceItem])"
    by (simp add: tillWithCart_def saltItem_def riceItem_def)
  then have "tillWithCart True [saltItem] \<noteq> tillWithCart True [riceItem]" by auto
  then show ?thesis
    by (simp add: proceedToPayment_def tillWithCart_def makeBill_def saltItem_def riceItem_def)
qed

text \<open>
  Claim C9, amended. The bill id is made on the client: \<open>proceedToPayment\<close>, when the cart
  is not empty and the customer has a phone, sets it to \<open>INV-\<close> followed by the decimal
  digits of the clock. Two such checkouts get the same bill id exactly when their clock
  readings are equal. The bill that \<open>completeSale\<close> builds carries the bill id stored
  before, and \<open>completeSale\<close> leaves that id unchanged whatever the outcome, so a retry
  builds a bill with the same id.
\<close>

theorem billId_from_client_clock:
  assumes "cart s1 \<noteq> []" and "phone (customerInfo s1) \<noteq> []"
    and "cart s2 \<noteq> []" and "phone (customerInfo s2) \<noteq> []"
  shows "paymentBillId (proceedToPayment t1 s1) = ''INV-'' @ showNat t1 \<and>
     (paymentBillId (proceedToPayment t1 s1) = paymentBillId (proceedToPayment t2 s2)
        \<longleftrightarrow> t1 = t2) \<and>
     billId (makeBill pm now uid s) = paymentBillId s \<and>
     paymentBillId (fst (completeSale env pm now s)) = paymentBillId s \<and>
     billId (makeBill pm' now' uid (fst (completeSale env pm now s))) =
       billId (makeBill pm now uid s)"
  using assms
  by (auto simp: proceedToPayment_def makeBill_def completeSale_paymentBillId dest: showNat_inj)

theorem billId_from_client_clock_witness:
  "(let s1 = tillWithCart True [saltItem]; s2 = tillWithCart True [riceItem] in
      cart s1 \<noteq> [] \<and> phone (customerInfo s1) \<noteq> [] \<and> cart s2 \<noteq> [] \<and>
      phone (customerInfo s2) \<noteq> [] \<and>
      paymentBillId (proceedToPayment 2000 s1) = ''INV-2000'' \<and>
      paymentBillId (proceedToPayment 2000 s1) \<noteq> paymentBillId (proceedToPayment 2001 s2) \<and>
      billId (makeBill cash 2005 ''u1''
                (fst (completeSale (remoteFailing [0] []) cash 2003 (proceedToPayment 2000 s1)))) =
        ''INV-2000'')"
proof -
  let ?a = "tillWithCart True [saltItem]"
  let ?b = "tillWithCart True [riceItem]"
  have h: "cart ?a \<noteq> []" "phone (customerInfo ?a) \<noteq> []" "cart ?b \<noteq> []"
    "phone (customerInfo ?b) \<noteq> []"
    by (simp_all add: tillWithCart_def)
  have d: "showNat 2000 = ''2000''"
    by (simp add: showNat.simps digitChar_def)
  note t = billId_from_client_clock [OF h, of 2000 2001 cash 2003 "''u1''"
      "proceedToPayment 2000 ?a" "remoteFailing [0] []" cash 2005]
  from t d have 1: "paymentBillId (proceedToPayment 2000 ?a) = ''INV-2000''"
    by (simp only: append.simps)
  have "(2000::nat) \<noteq> 2001" by simp
  with t have 2: "paymentBillId (proceedToPayment 2000 ?a) \<noteq>
      paymentBillId (proceedToPayment 2001 ?b)"
    by blast
  from t have "billId (makeBill cash 2005 ''u1''
        (fst (completeSale (remoteFailing [0] []) cash 2003 (proceedToPayment 2000 ?a)))) =
      paymentBillId (proceedToPayment 2000 ?a)"
    by (elim conjE) (rule trans)
  with 1 have 3: "billId (makeBill cash 2005 ''u1''
        (fst (completeSale (remoteFailing [0] []) cash 2003 (proceedToPayment 2000 ?a)))) =
      ''INV-2000''"
    by (simp only:)
  show ?thesis unfolding Let_def by (intro conjI) (fact h 1 2 3)+
qed

end
